theory Spec2Isabelle
  imports Main "HOL-Library.Char_ord" "HOL-Library.List_Lexorder"
begin

section \<open>Strings of the source language\<close>

text \<open>
  A JavaScript string is modelled as a \<^typ>\<open>string\<close>, one \<^typ>\<open>char\<close> per code unit, for
  the code units from 0 to 255 (Basic Latin and Latin-1 Supplement). Case conversion
  and trimming follow the language on this range: the letters a to z, and the Latin-1
  letters from 0xE0 to 0xFE other than the division sign 0xF7, have their upper case 32
  below; the sharp s 0xDF has the two letters SS; the other way round, A to Z and the
  letters from 0xC0 to 0xDE other than the multiplication sign 0xD7 have their lower case
  32 above. The upper case of the micro sign 0xB5 and of 0xFF lies beyond 255 and is not
  a \<^typ>\<open>char\<close>: the model keeps these two characters, which keeps what the program
  uses of them in a pattern, the length of the token and that the character is neither
  C nor V. White space in the range is tab, line feed, vertical tab, form feed, carriage
  return, space and the no-break space 0xA0.
\<close>

definition str_startsWith :: "string \<Rightarrow> string \<Rightarrow> bool" where
  \<comment> \<open>\<open>s.startsWith(p)\<close>\<close>
  "str_startsWith s p = (take (length p) s = p)"

definition str_endsWith :: "string \<Rightarrow> string \<Rightarrow> bool" where
  \<comment> \<open>\<open>s.endsWith(p)\<close>\<close>
  "str_endsWith s p = (length p \<le> length s \<and> drop (length s - length p) s = p)"

fun str_includes :: "string \<Rightarrow> string \<Rightarrow> bool" where
  \<comment> \<open>\<open>s.includes(p)\<close>: \<open>p\<close> occurs at some position of \<open>s\<close>\<close>
  "str_includes [] p = (p = [])"
| "str_includes (c # s) p = (str_startsWith (c # s) p \<or> str_includes s p)"

definition toLowerCase_char :: "char \<Rightarrow> char" where
  "toLowerCase_char c =
     (let n = (of_char c :: nat) in
      if 65 \<le> n \<and> n \<le> 90 then char_of (n + 32)
      else if 192 \<le> n \<and> n \<le> 222 \<and> n \<noteq> 215 then char_of (n + 32)
      else c)"

definition toUpperCase_char :: "char \<Rightarrow> string" where
  \<comment> \<open>the upper case of one character, which is two characters for the sharp s; the
      micro sign 181 and the character 255 are kept, their upper case being no \<open>char\<close>\<close>
  "toUpperCase_char c =
     (let n = (of_char c :: nat) in
      if 97 \<le> n \<and> n \<le> 122 then [char_of (n - 32)]
      else if n = 223 then ''SS''
      else if 224 \<le> n \<and> n \<le> 254 \<and> n \<noteq> 247 then [char_of (n - 32)]
      else [c])"

definition toLowerCase :: "string \<Rightarrow> string" where
  "toLowerCase s = map toLowerCase_char s"

definition toUpperCase :: "string \<Rightarrow> string" where
  "toUpperCase s = concat (map toUpperCase_char s)"

definition isWhiteSpace :: "char \<Rightarrow> bool" where
  \<comment> \<open>tab, line feed, vertical tab, form feed, carriage return, space, no-break space\<close>
  "isWhiteSpace c = ((of_char c :: nat) \<in> {9, 10, 11, 12, 13, 32, 160})"

definition trim :: "string \<Rightarrow> string" where
  "trim s = rev (dropWhile isWhiteSpace (rev (dropWhile isWhiteSpace s)))"

fun split_comma :: "string \<Rightarrow> string list" where
  \<comment> \<open>\<open>s.split(",")\<close>; the empty string splits into one empty token\<close>
  "split_comma [] = [[]]"
| "split_comma (c # s) =
     (if c = CHR '','' then [] # split_comma s
      else (case split_comma s of
              [] \<Rightarrow> [[c]]
            | tok # toks \<Rightarrow> (c # tok) # toks))"

section \<open>Pattern classifier\<close>

definition VOWELS :: string where
  "VOWELS = ''aeiou''"

definition isVowel :: "char \<Rightarrow> bool" where
  "isVowel c = str_includes VOWELS (toLowerCase [c])"

definition getPattern :: "string \<Rightarrow> string" where
  \<comment> \<open>C for consonant, V for vowel\<close>
  "getPattern word = map (\<lambda>c. if isVowel c then CHR ''V'' else CHR ''C'') word"

definition matchesPattern :: "string \<Rightarrow> string \<Rightarrow> bool" where
  "matchesPattern word pattern =
     (let wordPattern = getPattern word in
      if length wordPattern = length pattern then wordPattern = pattern
      else if length pattern < length wordPattern then
        str_startsWith wordPattern pattern
        \<or> str_endsWith wordPattern pattern
        \<or> str_includes wordPattern pattern
      else str_startsWith pattern wordPattern \<or> str_includes pattern wordPattern)"

definition hasGoodPronounceability :: "string \<Rightarrow> bool" where
  "hasGoodPronounceability word =
     (let pattern = getPattern word in
      if str_includes pattern ''CCC'' \<or> str_includes pattern ''CCCC'' then False
      else if str_includes pattern ''VVV'' then False
      else if \<not> str_includes pattern ''V'' then False
      else if \<not> str_includes pattern ''C'' then False
      else True)"

section \<open>Pattern filter\<close>

definition getBestPatternsForLength :: "nat \<Rightarrow> string list" where
  \<comment> \<open>the table \<open>bestPatterns\<close>, with \<open>bestPatterns[length] || []\<close>\<close>
  "getBestPatternsForLength len =
     (if len = 2 then [''CV'', ''VC'']
      else if len = 3 then [''CVC'', ''VCV'', ''CVV'']
      else if len = 4 then [''CVCV'', ''CVCC'', ''VCVC'', ''CVVC'']
      else if len = 5 then [''CVCVC'', ''CVCCV'', ''CVCVV'', ''VCVCV'']
      else if len = 6 then [''CVCVCV'', ''CVCCVC'', ''CVCVCC'', ''VCVCVC'']
      else if len = 7 then [''CVCVCVC'', ''CVCCVCV'', ''CVCVCCV'']
      else [])"

definition patternsToMatch :: "nat \<Rightarrow> string \<Rightarrow> string list" where
  \<comment> \<open>the value of the variable \<open>patternsToMatch\<close> of \<open>filterByPattern\<close>, for a filter
      other than \<open>none\<close>\<close>
  "patternsToMatch numberOfLetters patternFilter =
     (if patternFilter = ''auto'' then getBestPatternsForLength numberOfLetters
      else map (\<lambda>p. toUpperCase (trim p)) (split_comma patternFilter))"

definition filterByPattern :: "nat \<Rightarrow> string list \<Rightarrow> string \<Rightarrow> string list" where
  \<comment> \<open>the global \<open>numberOfLetters\<close> is the first argument\<close>
  "filterByPattern numberOfLetters combos patternFilter =
     (if patternFilter = ''none'' then combos
      else if patternFilter = ''auto''
              \<and> length (patternsToMatch numberOfLetters patternFilter) = 0
      then filter hasGoodPronounceability combos
      else filter (\<lambda>combo.
             list_ex (\<lambda>pattern. matchesPattern combo pattern)
               (patternsToMatch numberOfLetters patternFilter)
             \<and> hasGoodPronounceability combo) combos)"

section \<open>Combination generator\<close>

text \<open>
  The inner function \<open>recurse\<close> of \<open>generateCombos\<close> pushes onto the array \<open>results\<close>
  of the enclosing call; the model passes the array in and returns it. The source stops
  only when \<open>depth\<close> equals \<open>length\<close>: started beyond it, the recursion would run until
  the call stack overflows, which is the result \<open>None\<close>.
\<close>

definition letters :: string where
  "letters = ''abcdefghijklmnopqrstuvwxyz''"

function recurse :: "nat \<Rightarrow> string \<Rightarrow> nat \<Rightarrow> string list \<Rightarrow> string list option" where
  "recurse len prefix depth results =
     (if depth = len then Some (results @ [prefix])
      else if len < depth then None
      else fold (\<lambda>ch acc. case acc of
                   None \<Rightarrow> None
                 | Some rs \<Rightarrow> recurse len (prefix @ [ch]) (depth + 1) rs)
             letters (Some results))"
  by pat_completeness auto
termination
  by (relation "measure (\<lambda>(len, prefix, depth, results). len - depth)") auto

declare recurse.simps [simp del]

definition generateCombos :: "nat \<Rightarrow> string list option" where
  "generateCombos len = recurse len [] 0 []"


text \<open>
  The reference enumeration: the words of a given length in odometer order, the first
  letter changing slowest.
\<close>

fun lex_words :: "nat \<Rightarrow> string list" where
  "lex_words 0 = [[]]"
| "lex_words (Suc n) = concat (map (\<lambda>c. map ((#) c) (lex_words n)) letters)"

section \<open>Batch availability checker\<close>

text \<open>
  The top level of \<open>lookup.js\<close> from the creation of \<open>available\<close> to the end of the loop
  over the TLDs. The registrar is outside the program: it is a parameter, a function
  from the number of requests sent so far and the body of the request to what \<open>fetch\<close>
  does with it. The steps of the program that can throw return a sum, with the failure
  and the state reached on the left; nothing in the source catches a failure, so it
  ends the run.
\<close>

definition BATCH_SIZE :: nat where
  "BATCH_SIZE = 50"

definition SAVE_INTERVAL :: nat where
  "SAVE_INTERVAL = 500"

datatype error =
    ConfigError    \<comment> \<open>the number of letters is missing or below 1: the process exits with status 1\<close>
  | RangeError     \<comment> \<open>the call stack overflows\<close>
  | FetchRejected  \<comment> \<open>the promise of \<open>fetch\<close> is rejected: no response arrived\<close>
  | BodyRejected   \<comment> \<open>the body of the response cannot be read or parsed\<close>

text \<open>
  One element of \<open>data.domains\<close>: the fields \<open>domain\<close> and \<open>available\<close> (here \<open>avail\<close>, the
  name \<open>available\<close> being the program's table of results). A response carries \<open>ok\<close>, the
  outcome of \<open>response.text()\<close> and the outcome of \<open>response.json()\<close>, where \<open>None\<close> is a
  rejected promise; a parsed body is an object whose \<open>domains\<close>, when present, is an array
  of such elements, and \<open>Some None\<close> is a body without \<open>domains\<close>.
\<close>

datatype check_result = CheckResult (domain: string) (avail: bool)

datatype response =
  Response (ok: bool) (body_text: "string option") (body_json: "check_result list option option")

datatype fetch_outcome = Rejected | Resolved response

type_synonym network = "nat \<Rightarrow> string list \<Rightarrow> fetch_outcome"

text \<open>
  The lines the loop over the batches prints: \<open>Available domain\<close> for every available
  domain of a result, \<open>Saved n tld checkedCount\<close> for a save in the loop,
  \<open>Processed checkedCount total tld\<close> after every batch, \<open>SavedFinal n tld\<close> for the save
  after the loop. The other lines of the console are left out.
\<close>

datatype log_line =
    Available string
  | Saved nat string nat
  | Processed nat nat string
  | SavedFinal nat string

text \<open>
  The state of a run. \<open>available\<close> and \<open>domainCounters\<close> are the objects of these names,
  keyed by TLD; \<open>files\<close> is the content of the text files, keyed by path; \<open>requests\<close> is
  the list of the request bodies sent so far, and \<open>console\<close> the lines printed so far.
  The program sets \<open>available[tld]\<close> to the empty array, \<open>domainCounters[tld]\<close> to 0 and
  the file of the TLD to the empty file for every TLD of the list before the main loop,
  and reads no other key: the tables are total functions with these values as defaults.
  The counters are natural numbers; \<open>checkedCount - lastSavedAt\<close> is compared with 500
  only, where the truncated difference of naturals and the difference of numbers agree.
  The variables \<open>pendingDomains\<close> and \<open>lastSavedAt\<close>, declared anew for every TLD, are
  the record \<open>tld_run\<close>.
\<close>

record state =
  available :: "string \<Rightarrow> string list"
  domainCounters :: "string \<Rightarrow> nat"
  files :: "string \<Rightarrow> string"
  requests :: "string list list"
  console :: "log_line list"

record tld_run =
  pendingDomains :: "string list"
  lastSavedAt :: nat

definition slice :: "'a list \<Rightarrow> nat \<Rightarrow> nat \<Rightarrow> 'a list" where
  \<comment> \<open>\<open>xs.slice(start, end)\<close> for indices that are not negative\<close>
  "slice xs start end = take (end - start) (drop start xs)"

fun str_join :: "string \<Rightarrow> string list \<Rightarrow> string" where
  \<comment> \<open>\<open>xs.join(sep)\<close>\<close>
  "str_join sep [] = []"
| "str_join sep [x] = x"
| "str_join sep (x # y # ys) = x @ sep @ str_join sep (y # ys)"

definition textFilePath :: "string \<Rightarrow> string" where
  \<comment> \<open>\<open>textFilePaths[tld]\<close>: the file name is made of the time stamp of the run, the number
      of letters and the TLD without one leading dot; only the last differs between the
      files of a run and stands for the path\<close>
  "textFilePath tld = (case tld of [] \<Rightarrow> [] | c # rest \<Rightarrow> if c = CHR ''.'' then rest else tld)"

definition appendDomainsToFile ::
  "(string \<Rightarrow> string) \<Rightarrow> string \<Rightarrow> string list \<Rightarrow> (string \<Rightarrow> string)" where
  "appendDomainsToFile fs tld domains =
     (if length domains = 0 then fs
      else let filepath = textFilePath tld;
               content = str_join [CHR 0x0A] domains @ [CHR 0x0A]
           in fs(filepath := fs filepath @ content))"

definition checkDomainsBatch ::
  "(string list \<Rightarrow> fetch_outcome) \<Rightarrow> string list \<Rightarrow> error + check_result list" where
  \<comment> \<open>\<open>fetch\<close> is the registrar's reply to this request; the \<open>await\<close>s throw where a
      promise is rejected\<close>
  "checkDomainsBatch fetch domains =
     (case fetch domains of
        Rejected \<Rightarrow> Inl FetchRejected
      | Resolved response \<Rightarrow>
          if \<not> ok response then
            (case body_text response of
               None \<Rightarrow> Inl BodyRejected
             | Some message \<Rightarrow> Inr [])
          else
            (case body_json response of
               None \<Rightarrow> Inl BodyRejected
             | Some data \<Rightarrow> Inr (case data of None \<Rightarrow> [] | Some ds \<Rightarrow> ds)))"

definition batch_at :: "string list \<Rightarrow> string \<Rightarrow> nat \<Rightarrow> string list" where
  \<comment> \<open>the value of \<open>batch\<close> in the iteration that starts at index \<open>i\<close>\<close>
  "batch_at combos tld i = map (\<lambda>combo. combo @ tld) (slice combos i (i + BATCH_SIZE))"

text \<open>
  One iteration of the loop over the batches, without the delay at its end. The loop
  over \<open>results\<close> pushes every available domain onto \<open>available[tld]\<close> and onto
  \<open>pendingDomains\<close> and prints it, in order.
\<close>

definition batch_body ::
  "network \<Rightarrow> string list \<Rightarrow> string \<Rightarrow> nat \<Rightarrow> state \<Rightarrow> tld_run
     \<Rightarrow> error \<times> state + state \<times> tld_run" where
  "batch_body net combos tld i st run =
     (let batch = batch_at combos tld i;
          st1 = st\<lparr>requests := requests st @ [batch]\<rparr>
      in case checkDomainsBatch (net (length (requests st))) batch of
           Inl e \<Rightarrow> Inl (e, st1)
         | Inr results \<Rightarrow>
             let found = map domain (filter avail results);
                 st2 = st1\<lparr>available := (available st1)(tld := available st1 tld @ found),
                           console := console st1 @ map Available found\<rparr>;
                 pending = pendingDomains run @ found;
                 st3 = st2\<lparr>domainCounters :=
                         (domainCounters st2)(tld := domainCounters st2 tld + length batch)\<rparr>;
                 checkedCount = domainCounters st3 tld;
                 shouldSave = (checkedCount - lastSavedAt run \<ge> SAVE_INTERVAL
                               \<or> checkedCount = length combos)
             in if shouldSave \<and> length pending > 0 then
                  Inr (st3\<lparr>files := appendDomainsToFile (files st3) tld pending,
                            console := console st3 @
                              [Saved (length pending) tld checkedCount,
                               Processed checkedCount (length combos) tld]\<rparr>,
                       \<lparr>pendingDomains = [], lastSavedAt = checkedCount\<rparr>)
                else
                  Inr (st3\<lparr>console := console st3 @
                              [Processed checkedCount (length combos) tld]\<rparr>,
                       run\<lparr>pendingDomains := pending\<rparr>))"

function batch_loop ::
  "network \<Rightarrow> string list \<Rightarrow> string \<Rightarrow> nat \<Rightarrow> state \<Rightarrow> tld_run
     \<Rightarrow> error \<times> state + state \<times> tld_run" where
  "batch_loop net combos tld i st run =
     (if i < length combos then
        (case batch_body net combos tld i st run of
           Inl failure \<Rightarrow> Inl failure
         | Inr (st', run') \<Rightarrow> batch_loop net combos tld (i + BATCH_SIZE) st' run')
      else Inr (st, run))"
  by pat_completeness auto
termination
  by (relation "measure (\<lambda>(net, combos, tld, i, st, run). length combos - i)")
     (auto simp: BATCH_SIZE_def)

declare batch_loop.simps [simp del]

text \<open>The body of the loop over the TLDs: the batch loop, then the save of what is left.\<close>

definition check_tld :: "network \<Rightarrow> string list \<Rightarrow> string \<Rightarrow> state \<Rightarrow> error \<times> state + state" where
  "check_tld net combos tld st =
     (case batch_loop net combos tld 0 st \<lparr>pendingDomains = [], lastSavedAt = 0\<rparr> of
        Inl failure \<Rightarrow> Inl failure
      | Inr (st', run) \<Rightarrow>
          if length (pendingDomains run) > 0 then
            Inr (st'\<lparr>files := appendDomainsToFile (files st') tld (pendingDomains run),
                     console := console st' @ [SavedFinal (length (pendingDomains run)) tld]\<rparr>)
          else Inr st')"

fun tld_loop :: "network \<Rightarrow> string list \<Rightarrow> string list \<Rightarrow> state \<Rightarrow> error \<times> state + state" where
  "tld_loop net combos [] st = Inr st"
| "tld_loop net combos (tld # tlds) st =
     (case check_tld net combos tld st of
        Inl failure \<Rightarrow> Inl failure
      | Inr st' \<Rightarrow> tld_loop net combos tlds st')"

definition init_state :: state where
  "init_state = \<lparr>available = (\<lambda>tld. []), domainCounters = (\<lambda>tld. 0), files = (\<lambda>path. []),
                 requests = [], console = []\<rparr>"

text \<open>
  The program, given the number of letters that \<open>parseInt\<close> returns (0 stands for every
  argument the source refuses: missing, not a number, or below 1), the list of the TLDs
  after splitting, and the pattern argument after its default. The credentials are taken
  to be present.
\<close>

definition main :: "nat \<Rightarrow> string list \<Rightarrow> string \<Rightarrow> network \<Rightarrow> error \<times> state + state" where
  "main numberOfLetters tlds patternArg net =
     (if numberOfLetters < 1 then Inl (ConfigError, init_state)
      else case generateCombos numberOfLetters of
             None \<Rightarrow> Inl (RangeError, init_state)
           | Some allCombos \<Rightarrow>
               tld_loop net (filterByPattern numberOfLetters allCombos patternArg) tlds init_state)"

section \<open>Observations on a run\<close>

definition final_state :: "error \<times> state + state \<Rightarrow> state" where
  \<comment> \<open>the state a run ends in, whether it completes or is aborted\<close>
  "final_state outcome = (case outcome of Inl (e, st) \<Rightarrow> st | Inr st \<Rightarrow> st)"

definition requests_within :: "string list \<Rightarrow> string set \<Rightarrow> state \<Rightarrow> bool" where
  \<comment> \<open>every name sent to the registrar so far is one of the combinations followed by
      one of the TLDs\<close>
  "requests_within combos tlds st =
     (\<forall>batch \<in> set (requests st). \<forall>name \<in> set batch.
        \<exists>combo \<in> set combos. \<exists>tld \<in> tlds. name = combo @ tld)"

definition batches_from :: "string list \<Rightarrow> string \<Rightarrow> nat \<Rightarrow> string list list" where
  \<comment> \<open>the candidates of a TLD from index \<open>i\<close> on, in order and in groups of 50: the request
      bodies that the run of the TLD has to send from there\<close>
  "batches_from combos tld i =
     map (\<lambda>k. map (\<lambda>combo. combo @ tld) (take 50 (drop (i + 50 * k) combos)))
       [0..<(length combos - i + 49) div 50]"

fun processed_counts :: "log_line list \<Rightarrow> nat list" where
  \<comment> \<open>the checked counts of the progress lines, in order\<close>
  "processed_counts [] = []"
| "processed_counts (Processed checkedCount n tld # ls) = checkedCount # processed_counts ls"
| "processed_counts (l # ls) = processed_counts ls"

fun saved_counts :: "log_line list \<Rightarrow> nat list" where
  \<comment> \<open>the checked counts at which names were saved inside the batch loop, in order\<close>
  "saved_counts [] = []"
| "saved_counts (Saved n tld checkedCount # ls) = checkedCount # saved_counts ls"
| "saved_counts (l # ls) = saved_counts ls"

fun final_saves :: "log_line list \<Rightarrow> nat list" where
  \<comment> \<open>the numbers of names saved after the batch loop, in order\<close>
  "final_saves [] = []"
| "final_saves (SavedFinal n tld # ls) = n # final_saves ls"
| "final_saves (l # ls) = final_saves ls"

text \<open>
  The save cadence, as a property of the lines that the run of one TLD prints. The lines
  are read from the first on, with the total number of combinations, the checked count
  at the last save and the number of names pending. An available name is one more name
  pending. A save line stands directly before the progress line of its batch, shows the
  same checked count and the number of names pending, and needs the checked count to be
  at least 500 above the count at the last save, or equal to the total, and a name to be
  pending; after it the count at the last save is this checked count and no name is
  pending. A progress line without a save line needs that condition to fail. A save
  after the loop is the last line and needs a name to be pending; where the lines end
  without it no name is pending.
\<close>

fun cadence :: "nat \<Rightarrow> nat \<Rightarrow> nat \<Rightarrow> log_line list \<Rightarrow> bool" where
  "cadence len lastSaved pending [] = (pending = 0)"
| "cadence len lastSaved pending (Available name # ls) = cadence len lastSaved (Suc pending) ls"
| "cadence len lastSaved pending (Saved n tld checkedCount # Processed checked len' tld' # ls) =
     ((checkedCount - lastSaved \<ge> SAVE_INTERVAL \<or> checkedCount = len)
      \<and> 0 < pending \<and> n = pending \<and> checked = checkedCount
      \<and> cadence len checkedCount 0 ls)"
| "cadence len lastSaved pending (Saved n tld checkedCount # ls) = False"
| "cadence len lastSaved pending (Processed checkedCount len' tld # ls) =
     (\<not> ((checkedCount - lastSaved \<ge> SAVE_INTERVAL \<or> checkedCount = len) \<and> 0 < pending)
      \<and> cadence len lastSaved pending ls)"
| "cadence len lastSaved pending (SavedFinal n tld # ls) = (0 < pending \<and> n = pending \<and> ls = [])"

function save_points :: "nat \<Rightarrow> nat \<Rightarrow> nat \<Rightarrow> nat \<Rightarrow> nat list" where
  \<comment> \<open>the counter arithmetic of the batch loop on its own: the checked counts at which
      the loop saves, from index \<open>i\<close> on, when names are pending after every batch\<close>
  "save_points len i checked lastSaved =
     (if i < len then
        (if checked + min BATCH_SIZE (len - i) - lastSaved \<ge> SAVE_INTERVAL
            \<or> checked + min BATCH_SIZE (len - i) = len
         then (checked + min BATCH_SIZE (len - i))
                # save_points len (i + BATCH_SIZE) (checked + min BATCH_SIZE (len - i))
                    (checked + min BATCH_SIZE (len - i))
         else save_points len (i + BATCH_SIZE) (checked + min BATCH_SIZE (len - i)) lastSaved)
      else [])"
  by pat_completeness auto
termination
  by (relation "measure (\<lambda>(len, i, checked, lastSaved). len - i)")
     (auto simp: BATCH_SIZE_def)

declare save_points.simps [simp del]

definition answered :: "fetch_outcome \<Rightarrow> bool" where
  \<comment> \<open>the request got a response whose body could be read\<close>
  "answered outcome =
     (case outcome of
        Rejected \<Rightarrow> False
      | Resolved response \<Rightarrow>
          if ok response then body_json response \<noteq> None else body_text response \<noteq> None)"

text \<open>
  Sample registrars: every name is free, every name is taken, the network is down, every
  request is refused, the network goes down after some requests.
\<close>

definition all_available :: network where
  "all_available n batch =
     Resolved (Response True None (Some (Some (map (\<lambda>d. CheckResult d True) batch))))"

definition all_taken :: network where
  "all_taken n batch =
     Resolved (Response True None (Some (Some (map (\<lambda>d. CheckResult d False) batch))))"

definition network_down :: network where
  "network_down n batch = Rejected"

definition all_refused :: network where
  "all_refused n batch = Resolved (Response False (Some ''UNABLE_TO_AUTHENTICATE'') None)"

definition down_after :: "nat \<Rightarrow> network" where
  \<comment> \<open>every name is taken, until the network goes down after \<open>m\<close> requests\<close>
  "down_after m n batch = (if n < m then all_taken n batch else Rejected)"

section \<open>Facts about the string operations\<close>

lemma str_startsWith_iff: "str_startsWith s p \<longleftrightarrow> (\<exists>r. s = p @ r)"
proof
  assume "str_startsWith s p"
  then have "s = p @ drop (length p) s"
    by (metis append_take_drop_id str_startsWith_def)
  then show "\<exists>r. s = p @ r" ..
next
  assume "\<exists>r. s = p @ r"
  then show "str_startsWith s p"
    by (auto simp: str_startsWith_def)
qed

lemma str_endsWith_iff: "str_endsWith s p \<longleftrightarrow> (\<exists>l. s = l @ p)"
proof
  assume "str_endsWith s p"
  then have "s = take (length s - length p) s @ p"
    by (metis append_take_drop_id str_endsWith_def)
  then show "\<exists>l. s = l @ p" ..
next
  assume "\<exists>l. s = l @ p"
  then show "str_endsWith s p"
    by (auto simp: str_endsWith_def)
qed

lemma str_includes_iff: "str_includes s p \<longleftrightarrow> (\<exists>l r. s = l @ p @ r)"
proof (induction s)
  case Nil
  then show ?case by auto
next
  case (Cons c s)
  show ?case
  proof
    assume "str_includes (c # s) p"
    then consider "str_startsWith (c # s) p" | "str_includes s p" by auto
    then show "\<exists>l r. c # s = l @ p @ r"
    proof cases
      case 1
      then obtain r where "c # s = p @ r" by (auto simp: str_startsWith_iff)
      then have "c # s = [] @ p @ r" by simp
      then show ?thesis by blast
    next
      case 2
      then obtain l r where "s = l @ p @ r" using Cons.IH by auto
      then have "c # s = (c # l) @ p @ r" by simp
      then show ?thesis by blast
    qed
  next
    assume "\<exists>l r. c # s = l @ p @ r"
    then obtain l r where lr: "c # s = l @ p @ r" by auto
    show "str_includes (c # s) p"
    proof (cases l)
      case Nil
      with lr have "str_startsWith (c # s) p" by (auto simp: str_startsWith_iff)
      then show ?thesis by simp
    next
      case (Cons a l')
      with lr have "s = l' @ p @ r" by simp
      then have "str_includes s p" using Cons.IH by blast
      then show ?thesis by simp
    qed
  qed
qed

lemma str_startsWith_includes: "str_startsWith s p \<Longrightarrow> str_includes s p"
  unfolding str_startsWith_iff str_includes_iff
  by (metis append_Nil)

lemma str_endsWith_includes: "str_endsWith s p \<Longrightarrow> str_includes s p"
  unfolding str_endsWith_iff str_includes_iff
  by (metis append_Nil2)

lemma length_getPattern [simp]: "length (getPattern word) = length word"
  by (simp add: getPattern_def)

section \<open>Facts about the generator\<close>

lemma fold_push:
  assumes "\<And>ch rs. ch \<in> set ls \<Longrightarrow> f ch rs = Some (rs @ g ch)"
  shows "fold (\<lambda>ch acc. case acc of None \<Rightarrow> None | Some rs \<Rightarrow> f ch rs) ls (Some rs)
         = Some (rs @ concat (map g ls))"
  using assms by (induction ls arbitrary: rs) auto

lemma append_snoc_fun: "(@) (p @ [c]) = (\<lambda>w. p @ c # w)"
  by (rule ext) simp

lemma recurse_eq:
  "depth \<le> len \<Longrightarrow>
   recurse len prefix depth results
     = Some (results @ map (\<lambda>w. prefix @ w) (lex_words (len - depth)))"
proof (induction "len - depth" arbitrary: prefix depth results)
  case 0
  then show ?case by (simp add: recurse.simps)
next
  case (Suc k)
  then have lt: "depth < len" and k: "k = len - (depth + 1)" by auto
  have inner: "recurse len (prefix @ [ch]) (Suc depth) rs
      = Some (rs @ map (\<lambda>w. prefix @ ch # w) (lex_words k))" for ch rs
    using Suc.hyps(1) [where depth = "depth + 1"] k lt by (simp add: append_snoc_fun)
  have "fold (\<lambda>ch acc. case acc of None \<Rightarrow> None
                        | Some rs \<Rightarrow> recurse len (prefix @ [ch]) (Suc depth) rs)
          letters (Some results)
      = Some (results @ concat (map (\<lambda>ch. map (\<lambda>w. prefix @ ch # w) (lex_words k)) letters))"
    by (rule fold_push) (rule inner)
  then have "recurse len prefix depth results
      = Some (results @ concat (map (\<lambda>ch. map (\<lambda>w. prefix @ ch # w) (lex_words k)) letters))"
    using lt by (subst recurse.simps) simp
  moreover have "len - depth = Suc k" using Suc.hyps(2) by simp
  ultimately show ?case
    by (simp add: map_concat comp_def)
qed


lemma length_cons_product:
  "length (concat (map (\<lambda>c. map ((#) c) ws) ls)) = length ls * length ws"
  by (induction ls) auto

lemma length_lex_words: "length (lex_words n) = 26 ^ n"
  by (induction n) (simp_all add: length_cons_product letters_def)

lemma set_lex_words: "set (lex_words n) = {w. length w = n \<and> set w \<subseteq> set letters}"
proof (induction n)
  case 0
  then show ?case by auto
next
  case (Suc n)
  show ?case
  proof (rule set_eqI)
    fix w
    show "w \<in> set (lex_words (Suc n)) \<longleftrightarrow> w \<in> {w. length w = Suc n \<and> set w \<subseteq> set letters}"
      using Suc.IH by (cases w) auto
  qed
qed




section \<open>Claims about the generator\<close>



section \<open>Claims about the classifier\<close>

text \<open>
  Claim C4. With \<open>S\<close> the signature of the word and \<open>P\<close> the pattern: when both have the
  same length, \<open>matchesPattern\<close> is equality of \<open>S\<close> and \<open>P\<close>; when \<open>P\<close> is shorter, it holds
  iff \<open>S\<close> starts with \<open>P\<close>, ends with \<open>P\<close> or contains \<open>P\<close>; when \<open>P\<close> is longer, it holds iff
  \<open>P\<close> starts with \<open>S\<close> or contains \<open>S\<close>, with no test that \<open>P\<close> ends with \<open>S\<close>.
\<close>

theorem matchesPattern_by_length:
  "(length (getPattern word) = length P \<longrightarrow>
      (matchesPattern word P \<longleftrightarrow> getPattern word = P))
   \<and> (length P < length (getPattern word) \<longrightarrow>
      (matchesPattern word P \<longleftrightarrow>
         (\<exists>r. getPattern word = P @ r)
         \<or> (\<exists>l. getPattern word = l @ P)
         \<or> (\<exists>l r. getPattern word = l @ P @ r)))
   \<and> (length (getPattern word) < length P \<longrightarrow>
      (matchesPattern word P \<longleftrightarrow>
         (\<exists>r. P = getPattern word @ r)
         \<or> (\<exists>l r. P = l @ getPattern word @ r)))"
  unfolding matchesPattern_def Let_def str_startsWith_iff str_endsWith_iff str_includes_iff
  by simp

theorem matchesPattern_by_length_witness:
  "length ''CVC'' < length (getPattern ''cats'')
   \<and> matchesPattern ''cats'' ''CVC''
   \<and> (\<exists>r. getPattern ''cats'' = ''CVC'' @ r)"
proof -
  have gp: "getPattern ''cats'' = ''CVCC''" by code_simp
  have m: "matchesPattern ''cats'' ''CVC''" by code_simp
  have "length ''CVC'' < length (getPattern ''cats'')" by simp
  with matchesPattern_by_length [of "''cats''" "''CVC''"] m
  have "(\<exists>r. getPattern ''cats'' = ''CVC'' @ r)
         \<or> (\<exists>l. getPattern ''cats'' = l @ ''CVC'')
         \<or> (\<exists>l r. getPattern ''cats'' = l @ ''CVC'' @ r)" by blast
  moreover have "\<exists>r. getPattern ''cats'' = ''CVC'' @ r" using gp by simp
  ultimately show ?thesis using m by simp
qed

text \<open>
  Claim C9. When the pattern and the signature differ in length, \<open>matchesPattern\<close> holds
  iff the shorter of the two occurs inside the longer: starting with and ending with are
  cases of containing. So a test that the pattern ends with the signature, added to the
  branch of the longer pattern, changes no result.
\<close>

theorem matchesPattern_unequal_is_containment:
  "length P \<noteq> length (getPattern word) \<Longrightarrow>
   (matchesPattern word P \<longleftrightarrow>
      (if length P < length (getPattern word)
       then (\<exists>l r. getPattern word = l @ P @ r)
       else (\<exists>l r. P = l @ getPattern word @ r)))
   \<and> (length (getPattern word) < length P \<longrightarrow>
        (matchesPattern word P \<longleftrightarrow>
           str_startsWith P (getPattern word)
           \<or> str_endsWith P (getPattern word)
           \<or> str_includes P (getPattern word)))"
  unfolding matchesPattern_def Let_def
  using str_startsWith_includes str_endsWith_includes
  by (auto simp: str_includes_iff [symmetric])

theorem matchesPattern_unequal_is_containment_witness:
  "length ''CVCV'' \<noteq> length (getPattern ''at'')
   \<and> matchesPattern ''at'' ''CVCV''
   \<and> (\<exists>l r. ''CVCV'' = l @ getPattern ''at'' @ r)
   \<and> (str_startsWith ''CVCV'' (getPattern ''at'')
        \<or> str_endsWith ''CVCV'' (getPattern ''at'')
        \<or> str_includes ''CVCV'' (getPattern ''at''))"
proof -
  have ne: "length ''CVCV'' \<noteq> length (getPattern ''at'')" by simp
  have lt: "length (getPattern ''at'') < length ''CVCV''" by simp
  have nlt: "\<not> length ''CVCV'' < length (getPattern ''at'')" by simp
  have m: "matchesPattern ''at'' ''CVCV''" by code_simp
  note fact = matchesPattern_unequal_is_containment [OF ne]
  from fact nlt m have "\<exists>l r. ''CVCV'' = l @ getPattern ''at'' @ r"
    by (simp only: if_False simp_thms)
  moreover from fact lt m
  have "str_startsWith ''CVCV'' (getPattern ''at'')
        \<or> str_endsWith ''CVCV'' (getPattern ''at'')
        \<or> str_includes ''CVCV'' (getPattern ''at'')"
    by blast
  ultimately show ?thesis using ne m by blast
qed

section \<open>Claims about the filter\<close>

text \<open>
  Claim C8. With the pattern specification \<open>none\<close> the filter returns the combinations
  it was given, unchanged: the same elements in the same order, whatever the number of
  letters, and no pronounceability test is applied.
\<close>

theorem filterByPattern_none:
  "filterByPattern numberOfLetters combos ''none'' = combos"
  by (simp add: filterByPattern_def)

theorem filterByPattern_none_witness:
  "filterByPattern 3 [''xyz'', ''cat'', ''xyz''] ''none'' = [''xyz'', ''cat'', ''xyz'']
   \<and> \<not> hasGoodPronounceability ''xyz''"
proof -
  have "\<not> hasGoodPronounceability ''xyz''" by code_simp
  then show ?thesis
    using filterByPattern_none [of 3 "[''xyz'', ''cat'', ''xyz'']"] by simp
qed

text \<open>
  Claim C6, as the specification states it, asks for three or four signatures at every
  length from 2 to 7. The table has two signatures at length 2.
\<close>

theorem getBestPatternsForLength_two_counterexample:
  "\<not> (3 \<le> length (getBestPatternsForLength 2) \<and> length (getBestPatternsForLength 2) \<le> 4)"
  by (simp add: getBestPatternsForLength_def)

text \<open>
  Claim C6, amended. \<open>getBestPatternsForLength\<close> is a table with an entry for every
  length from 2 to 7 and no other: length 2 has the two signatures CV and VC, lengths 3
  to 7 have three or four signatures each (length 3 has CVC, VCV and CVV), and every
  other length gives the empty sequence.
\<close>

theorem getBestPatternsForLength_table:
  "getBestPatternsForLength 2 = [''CV'', ''VC'']
   \<and> getBestPatternsForLength 3 = [''CVC'', ''VCV'', ''CVV'']
   \<and> getBestPatternsForLength 4 = [''CVCV'', ''CVCC'', ''VCVC'', ''CVVC'']
   \<and> getBestPatternsForLength 5 = [''CVCVC'', ''CVCCV'', ''CVCVV'', ''VCVCV'']
   \<and> getBestPatternsForLength 6 = [''CVCVCV'', ''CVCCVC'', ''CVCVCC'', ''VCVCVC'']
   \<and> getBestPatternsForLength 7 = [''CVCVCVC'', ''CVCCVCV'', ''CVCVCCV'']
   \<and> (\<forall>len. 3 \<le> len \<and> len \<le> 7 \<longrightarrow>
         3 \<le> length (getBestPatternsForLength len) \<and> length (getBestPatternsForLength len) \<le> 4)
   \<and> (\<forall>len. len < 2 \<or> 7 < len \<longrightarrow> getBestPatternsForLength len = [])"
proof -
  have "3 \<le> length (getBestPatternsForLength len) \<and> length (getBestPatternsForLength len) \<le> 4"
    if "3 \<le> len" "len \<le> 7" for len
  proof -
    from that have "len = 3 \<or> len = 4 \<or> len = 5 \<or> len = 6 \<or> len = 7" by arith
    then show ?thesis by (auto simp: getBestPatternsForLength_def)
  qed
  moreover have "getBestPatternsForLength len = []" if "len < 2 \<or> 7 < len" for len
    using that by (auto simp: getBestPatternsForLength_def)
  ultimately show ?thesis
    by (simp add: getBestPatternsForLength_def)
qed

theorem getBestPatternsForLength_table_witness:
  "(3::nat) \<le> 7 \<and> length (getBestPatternsForLength 7) = 3
   \<and> ((1::nat) < 2 \<or> (7::nat) < 1) \<and> getBestPatternsForLength 1 = []
   \<and> getBestPatternsForLength 8 = []"
  using getBestPatternsForLength_table by simp

section \<open>Facts about the checker\<close>

lemma set_slice: "set (slice xs a b) \<subseteq> set xs"
  unfolding slice_def by (meson in_set_dropD in_set_takeD subsetI)

lemma length_slice: "length (slice xs a b) = min (b - a) (length xs - a)"
  by (simp add: slice_def)

lemma length_batch_at: "length (batch_at combos tld i) = min BATCH_SIZE (length combos - i)"
  by (simp add: batch_at_def length_slice)

lemma batch_at_names:
  "name \<in> set (batch_at combos tld i) \<Longrightarrow> \<exists>combo \<in> set combos. name = combo @ tld"
  using set_slice [of combos i "i + BATCH_SIZE"] by (auto simp: batch_at_def)

lemma batch_body_InlE:
  assumes "batch_body net combos tld i st run = Inl (e, st')"
  shows "checkDomainsBatch (net (length (requests st))) (batch_at combos tld i) = Inl e"
    and "st' = st\<lparr>requests := requests st @ [batch_at combos tld i]\<rparr>"
  using assms
  by (auto simp: batch_body_def Let_def split: sum.splits if_splits)

lemma batch_body_InrE:
  assumes "batch_body net combos tld i st run = Inr (st', run')"
  obtains results where
    "checkDomainsBatch (net (length (requests st))) (batch_at combos tld i) = Inr results"
    "requests st' = requests st @ [batch_at combos tld i]"
    "available st' = (available st)(tld := available st tld @ map domain (filter avail results))"
    "domainCounters st' =
       (domainCounters st)(tld := domainCounters st tld + length (batch_at combos tld i))"
    "if (domainCounters st' tld - lastSavedAt run \<ge> SAVE_INTERVAL
           \<or> domainCounters st' tld = length combos)
        \<and> pendingDomains run @ map domain (filter avail results) \<noteq> []
     then files st' = appendDomainsToFile (files st) tld
                        (pendingDomains run @ map domain (filter avail results))
          \<and> console st' = console st @ map Available (map domain (filter avail results)) @
                [Saved (length (pendingDomains run @ map domain (filter avail results))) tld
                   (domainCounters st' tld),
                 Processed (domainCounters st' tld) (length combos) tld]
          \<and> run' = \<lparr>pendingDomains = [], lastSavedAt = domainCounters st' tld\<rparr>
     else files st' = files st
          \<and> console st' = console st @ map Available (map domain (filter avail results)) @
                [Processed (domainCounters st' tld) (length combos) tld]
          \<and> run' = run\<lparr>pendingDomains := pendingDomains run @ map domain (filter avail results)\<rparr>"
proof -
  from assms obtain results where
    r: "checkDomainsBatch (net (length (requests st))) (batch_at combos tld i) = Inr results"
    by (auto simp: batch_body_def Let_def split: sum.splits)
  show thesis
  proof (rule that [OF r])
    show "requests st' = requests st @ [batch_at combos tld i]"
      using assms r by (auto simp: batch_body_def Let_def split: if_splits)
    show "available st' = (available st)(tld := available st tld @ map domain (filter avail results))"
      using assms r by (auto simp: batch_body_def Let_def split: if_splits)
    show c: "domainCounters st' =
       (domainCounters st)(tld := domainCounters st tld + length (batch_at combos tld i))"
      using assms r by (auto simp: batch_body_def Let_def split: if_splits)
    show "if (domainCounters st' tld - lastSavedAt run \<ge> SAVE_INTERVAL
           \<or> domainCounters st' tld = length combos)
        \<and> pendingDomains run @ map domain (filter avail results) \<noteq> []
     then files st' = appendDomainsToFile (files st) tld
                        (pendingDomains run @ map domain (filter avail results))
          \<and> console st' = console st @ map Available (map domain (filter avail results)) @
                [Saved (length (pendingDomains run @ map domain (filter avail results))) tld
                   (domainCounters st' tld),
                 Processed (domainCounters st' tld) (length combos) tld]
          \<and> run' = \<lparr>pendingDomains = [], lastSavedAt = domainCounters st' tld\<rparr>
     else files st' = files st
          \<and> console st' = console st @ map Available (map domain (filter avail results)) @
                [Processed (domainCounters st' tld) (length combos) tld]
          \<and> run' = run\<lparr>pendingDomains := pendingDomains run @ map domain (filter avail results)\<rparr>"
      using assms r unfolding c
      by (auto simp: batch_body_def Let_def split: if_splits)
  qed
qed

lemma batch_body_Inr_iff:
  "(\<exists>st' run'. batch_body net combos tld i st run = Inr (st', run'))
   \<longleftrightarrow> (\<exists>results. checkDomainsBatch (net (length (requests st))) (batch_at combos tld i)
                    = Inr results)"
  by (auto simp: batch_body_def Let_def split: sum.splits)

lemma checkDomainsBatch_answered:
  "answered (fetch domains) \<longleftrightarrow> (\<exists>results. checkDomainsBatch fetch domains = Inr results)"
  by (auto simp: answered_def checkDomainsBatch_def split: fetch_outcome.splits option.splits)

lemma batch_body_requests_within:
  assumes "requests_within combos T st" and "tld \<in> T"
  shows "batch_body net combos tld i st run = Inl (e, st') \<Longrightarrow> requests_within combos T st'"
    and "batch_body net combos tld i st run = Inr (st', run') \<Longrightarrow> requests_within combos T st'"
proof -
  have new: "\<forall>name \<in> set (batch_at combos tld i). \<exists>combo \<in> set combos. \<exists>t \<in> T. name = combo @ t"
    using batch_at_names assms(2) by blast
  {
    assume "batch_body net combos tld i st run = Inl (e, st')"
    then have "requests st' = requests st @ [batch_at combos tld i]"
      using batch_body_InlE(2) by fastforce
    then show "requests_within combos T st'"
      using assms(1) new by (auto simp: requests_within_def)
  }
  {
    assume "batch_body net combos tld i st run = Inr (st', run')"
    then have "requests st' = requests st @ [batch_at combos tld i]"
      by (rule batch_body_InrE)
    then show "requests_within combos T st'"
      using assms(1) new by (auto simp: requests_within_def)
  }
qed

lemma batch_loop_requests_within:
  "requests_within combos T st \<Longrightarrow> tld \<in> T \<Longrightarrow>
   (case batch_loop net combos tld i st run of
      Inl (e, st') \<Rightarrow> requests_within combos T st'
    | Inr (st', run') \<Rightarrow> requests_within combos T st')"
proof (induction net combos tld i st run rule: batch_loop.induct)
  case (1 net combos tld i st run)
  show ?case
  proof (cases "i < length combos")
    case False
    then show ?thesis using "1.prems" by (subst batch_loop.simps) simp
  next
    case True
    show ?thesis
    proof (cases "batch_body net combos tld i st run")
      case (Inl failure)
      obtain e st' where f: "failure = (e, st')" by (cases failure)
      with Inl "1.prems" have "requests_within combos T st'"
        using batch_body_requests_within(1) by blast
      with True Inl f show ?thesis by (subst batch_loop.simps) simp
    next
      case (Inr next_state)
      obtain st' run' where n: "next_state = (st', run')" by (cases next_state)
      with Inr "1.prems" have "requests_within combos T st'"
        using batch_body_requests_within(2) by blast
      then have "case batch_loop net combos tld (i + BATCH_SIZE) st' run' of
                   Inl (e, st'') \<Rightarrow> requests_within combos T st''
                 | Inr (st'', run'') \<Rightarrow> requests_within combos T st''"
        using "1.IH" [OF True Inr n [symmetric]] "1.prems"(2) by simp
      with True Inr n show ?thesis by (subst batch_loop.simps) simp
    qed
  qed
qed

lemma requests_within_update [simp]:
  "requests_within combos T (st\<lparr>files := f, console := c\<rparr>) = requests_within combos T st"
  by (simp add: requests_within_def)

lemma check_tld_requests_within:
  "requests_within combos T st \<Longrightarrow> tld \<in> T \<Longrightarrow>
   requests_within combos T (final_state (check_tld net combos tld st))"
  using batch_loop_requests_within [of combos T st tld net 0 "\<lparr>pendingDomains = [], lastSavedAt = 0\<rparr>"]
  by (auto simp: check_tld_def final_state_def split: sum.splits prod.splits)

lemma tld_loop_requests_within:
  "requests_within combos T st \<Longrightarrow> set tlds \<subseteq> T \<Longrightarrow>
   requests_within combos T (final_state (tld_loop net combos tlds st))"
proof (induction tlds arbitrary: st)
  case Nil
  then show ?case by (simp add: final_state_def)
next
  case (Cons tld tlds)
  have step: "requests_within combos T (final_state (check_tld net combos tld st))"
    using Cons.prems by (simp add: check_tld_requests_within)
  show ?case
  proof (cases "check_tld net combos tld st")
    case (Inl failure)
    with step show ?thesis by simp
  next
    case (Inr st')
    with step have "requests_within combos T st'" by (simp add: final_state_def)
    then show ?thesis using Cons.IH [of st'] Cons.prems(2) Inr by simp
  qed
qed

lemma main_requests_within:
  "generateCombos numberOfLetters = Some allCombos \<Longrightarrow>
   requests_within (filterByPattern numberOfLetters allCombos patternArg) (set tlds)
     (final_state (main numberOfLetters tlds patternArg net))"
  using tld_loop_requests_within [of _ "set tlds" init_state tlds net]
  by (simp add: main_def final_state_def requests_within_def init_state_def)

lemma generateCombos_eq: "generateCombos L = Some (lex_words L)"
  by (simp add: generateCombos_def recurse_eq)

lemma filterByPattern_sound:
  assumes "patternArg \<noteq> ''none''" and "combo \<in> set (filterByPattern numberOfLetters combos patternArg)"
  shows "combo \<in> set combos"
    and "hasGoodPronounceability combo"
    and "patternArg = ''auto'' \<longrightarrow> getBestPatternsForLength numberOfLetters \<noteq> [] \<Longrightarrow>
         \<exists>pattern \<in> set (patternsToMatch numberOfLetters patternArg). matchesPattern combo pattern"
  using assms
  by (auto simp: filterByPattern_def patternsToMatch_def list_ex_iff split: if_splits)

section \<open>Claims about what reaches the checker\<close>

text \<open>
  Claim C1. With a pattern specification other than \<open>none\<close>, every combination the filter
  lets through satisfies \<open>hasGoodPronounceability\<close>, and, when a signature set is active
  (explicit signatures, or \<open>auto\<close> with a table entry for the length), matches at least
  one signature of that set. Every name in every availability request, of the TLD loop
  run on the filter's output and so of the whole program, is such a combination followed
  by one of the TLDs: unfiltered combinations reach the checker only with \<open>none\<close>.
\<close>

theorem only_filtered_combinations_reach_checker:
  assumes "patternArg \<noteq> ''none''"
  shows "(\<forall>combo \<in> set (filterByPattern numberOfLetters combos patternArg).
            hasGoodPronounceability combo
            \<and> ((patternArg = ''auto'' \<longrightarrow> getBestPatternsForLength numberOfLetters \<noteq> []) \<longrightarrow>
                 (\<exists>pattern \<in> set (patternsToMatch numberOfLetters patternArg).
                    matchesPattern combo pattern)))
       \<and> (\<forall>batch \<in> set (requests (final_state
                (tld_loop net (filterByPattern numberOfLetters combos patternArg) tlds init_state))).
            \<forall>name \<in> set batch. \<exists>combo. \<exists>tld \<in> set tlds.
              name = combo @ tld
              \<and> hasGoodPronounceability combo
              \<and> ((patternArg = ''auto'' \<longrightarrow> getBestPatternsForLength numberOfLetters \<noteq> []) \<longrightarrow>
                   (\<exists>pattern \<in> set (patternsToMatch numberOfLetters patternArg).
                      matchesPattern combo pattern)))
       \<and> (\<forall>batch \<in> set (requests (final_state (main numberOfLetters tlds patternArg net))).
            \<forall>name \<in> set batch. \<exists>combo. \<exists>tld \<in> set tlds.
              name = combo @ tld
              \<and> hasGoodPronounceability combo
              \<and> ((patternArg = ''auto'' \<longrightarrow> getBestPatternsForLength numberOfLetters \<noteq> []) \<longrightarrow>
                   (\<exists>pattern \<in> set (patternsToMatch numberOfLetters patternArg).
                      matchesPattern combo pattern)))"
proof -
  have sound: "hasGoodPronounceability combo
      \<and> ((patternArg = ''auto'' \<longrightarrow> getBestPatternsForLength numberOfLetters \<noteq> []) \<longrightarrow>
           (\<exists>pattern \<in> set (patternsToMatch numberOfLetters patternArg).
              matchesPattern combo pattern))"
    if "combo \<in> set (filterByPattern numberOfLetters cs patternArg)" for combo cs
    using filterByPattern_sound(2,3) [OF assms that] by blast
  have sent: "\<exists>combo. \<exists>tld \<in> set tlds.
              name = combo @ tld
              \<and> hasGoodPronounceability combo
              \<and> ((patternArg = ''auto'' \<longrightarrow> getBestPatternsForLength numberOfLetters \<noteq> []) \<longrightarrow>
                   (\<exists>pattern \<in> set (patternsToMatch numberOfLetters patternArg).
                      matchesPattern combo pattern))"
    if w: "requests_within (filterByPattern numberOfLetters cs patternArg) (set tlds) st"
      and b: "batch \<in> set (requests st)" and n: "name \<in> set batch" for batch name cs st
  proof -
    from w b n obtain combo tld where
      c: "combo \<in> set (filterByPattern numberOfLetters cs patternArg)"
      and t: "tld \<in> set tlds" and eq: "name = combo @ tld"
      unfolding requests_within_def by blast
    from sound [OF c] t eq show ?thesis by blast
  qed
  have within_main: "requests_within
          (filterByPattern numberOfLetters (lex_words numberOfLetters) patternArg) (set tlds)
          (final_state (main numberOfLetters tlds patternArg net))"
    by (rule main_requests_within) (rule generateCombos_eq)
  have "requests_within (filterByPattern numberOfLetters combos patternArg) (set tlds) init_state"
    by (simp add: requests_within_def init_state_def)
  then have within_loop: "requests_within (filterByPattern numberOfLetters combos patternArg) (set tlds)
          (final_state (tld_loop net (filterByPattern numberOfLetters combos patternArg) tlds
             init_state))"
    by (rule tld_loop_requests_within) simp
  from sound have "\<forall>combo \<in> set (filterByPattern numberOfLetters combos patternArg).
            hasGoodPronounceability combo
            \<and> ((patternArg = ''auto'' \<longrightarrow> getBestPatternsForLength numberOfLetters \<noteq> []) \<longrightarrow>
                 (\<exists>pattern \<in> set (patternsToMatch numberOfLetters patternArg).
                    matchesPattern combo pattern))"
    by blast
  moreover from sent [OF within_loop]
  have "\<forall>batch \<in> set (requests (final_state
                (tld_loop net (filterByPattern numberOfLetters combos patternArg) tlds init_state))).
            \<forall>name \<in> set batch. \<exists>combo. \<exists>tld \<in> set tlds.
              name = combo @ tld
              \<and> hasGoodPronounceability combo
              \<and> ((patternArg = ''auto'' \<longrightarrow> getBestPatternsForLength numberOfLetters \<noteq> []) \<longrightarrow>
                   (\<exists>pattern \<in> set (patternsToMatch numberOfLetters patternArg).
                      matchesPattern combo pattern))"
    by blast
  moreover from sent [OF within_main]
  have "\<forall>batch \<in> set (requests (final_state (main numberOfLetters tlds patternArg net))).
            \<forall>name \<in> set batch. \<exists>combo. \<exists>tld \<in> set tlds.
              name = combo @ tld
              \<and> hasGoodPronounceability combo
              \<and> ((patternArg = ''auto'' \<longrightarrow> getBestPatternsForLength numberOfLetters \<noteq> []) \<longrightarrow>
                   (\<exists>pattern \<in> set (patternsToMatch numberOfLetters patternArg).
                      matchesPattern combo pattern))"
    by blast
  ultimately show ?thesis by (intro conjI)
qed

theorem only_filtered_combinations_reach_checker_witness:
  "''cvc,vcv'' \<noteq> ''none''
   \<and> filterByPattern 3 [''cat'', ''xyz'', ''ace'', ''bee''] ''cvc,vcv'' = [''cat'', ''ace'']
   \<and> patternsToMatch 3 ''cvc,vcv'' = [''CVC'', ''VCV'']
   \<and> hasGoodPronounceability ''ace''
   \<and> list_ex (matchesPattern ''ace'') [''CVC'', ''VCV'']
   \<and> requests (final_state (tld_loop all_taken
         (filterByPattern 3 [''cat'', ''xyz'', ''ace'', ''bee''] ''cvc,vcv'') [''.io''] init_state))
       = [[''cat.io'', ''ace.io'']]
   \<and> (\<exists>combo. ''cat.io'' = combo @ ''.io''
         \<and> hasGoodPronounceability combo
         \<and> list_ex (matchesPattern combo) [''CVC'', ''VCV''])"
proof -
  have h: "''cvc,vcv'' \<noteq> ''none''" by simp
  have f: "filterByPattern 3 [''cat'', ''xyz'', ''ace'', ''bee''] ''cvc,vcv'' = [''cat'', ''ace'']"
    by code_simp
  have p: "patternsToMatch 3 ''cvc,vcv'' = [''CVC'', ''VCV'']"
    by code_simp
  have r: "requests (final_state (tld_loop all_taken
         (filterByPattern 3 [''cat'', ''xyz'', ''ace'', ''bee''] ''cvc,vcv'') [''.io''] init_state))
       = [[''cat.io'', ''ace.io'']]"
    by code_simp
  note fact = only_filtered_combinations_reach_checker
                [OF h, of 3 "[''cat'', ''xyz'', ''ace'', ''bee'']" all_taken "[''.io'']"]
  from fact have "hasGoodPronounceability ''ace''
      \<and> (\<exists>pattern \<in> set [''CVC'', ''VCV'']. matchesPattern ''ace'' pattern)"
    unfolding f p by simp
  moreover from fact have "\<exists>combo. \<exists>tld \<in> set [''.io''].
      ''cat.io'' = combo @ tld
      \<and> hasGoodPronounceability combo
      \<and> (\<exists>pattern \<in> set [''CVC'', ''VCV'']. matchesPattern combo pattern)"
    unfolding r p by simp
  ultimately show ?thesis
    using h f p r by (simp add: list_ex_iff)
qed

lemma hasGoodPronounceability_single: "\<not> hasGoodPronounceability [c]"
  by (simp add: hasGoodPronounceability_def getPattern_def str_startsWith_def)

lemma filter_single_letters:
  assumes "\<forall>w \<in> set combos. length w = 1"
  shows "filter hasGoodPronounceability combos = []"
proof -
  have "\<not> hasGoodPronounceability w" if "w \<in> set combos" for w
  proof -
    from assms that have "length w = 1" by blast
    then obtain c where "w = [c]" by (cases w) auto
    then show ?thesis by (simp add: hasGoodPronounceability_single)
  qed
  then show ?thesis by (simp add: filter_empty_conv)
qed

lemma batch_loop_no_combos: "batch_loop net [] tld i st run = Inr (st, run)"
  by (subst batch_loop.simps) simp

lemma tld_loop_no_combos: "tld_loop net [] tlds st = Inr st"
  by (induction tlds) (simp_all add: check_tld_def batch_loop_no_combos)

section \<open>Claims about a single letter\<close>

text \<open>
  Claim C10. With one letter and the pattern specification \<open>auto\<close> the filter lets
  nothing through: the table has no entry for length 1, the fallback keeps the
  combinations that satisfy \<open>hasGoodPronounceability\<close>, and no string of one character
  does. The run then sends no availability request at all, whatever the TLDs.
\<close>

theorem single_letter_auto_checks_nothing:
  "getBestPatternsForLength 1 = []
   \<and> (\<forall>c. \<not> hasGoodPronounceability [c])
   \<and> (\<exists>allCombos. generateCombos 1 = Some allCombos
         \<and> length allCombos = 26
         \<and> filterByPattern 1 allCombos ''auto'' = [])
   \<and> main 1 tlds ''auto'' net = Inr init_state
   \<and> requests (final_state (main 1 tlds ''auto'' net)) = []"
proof -
  have table: "getBestPatternsForLength 1 = []"
    by (simp add: getBestPatternsForLength_def)
  have "\<forall>w \<in> set (lex_words 1). length w = 1"
    by (simp add: set_lex_words)
  then have "filter hasGoodPronounceability (lex_words 1) = []"
    by (rule filter_single_letters)
  then have empty: "filterByPattern 1 (lex_words 1) ''auto'' = []"
    using table by (simp add: filterByPattern_def patternsToMatch_def)
  have len: "length (lex_words 1) = 26"
    using length_lex_words [of 1] by simp
  have run: "main 1 tlds ''auto'' net = Inr init_state"
    using empty by (simp add: main_def generateCombos_eq tld_loop_no_combos)
  have "requests (final_state (main 1 tlds ''auto'' net)) = []"
    unfolding run by (simp add: final_state_def init_state_def)
  with table empty len run show ?thesis
    by (simp add: generateCombos_eq hasGoodPronounceability_single)
qed

theorem single_letter_auto_checks_nothing_witness:
  "main 1 [''.com'', ''.io''] ''auto'' all_available = Inr init_state
   \<and> requests (final_state (main 1 [''.com'', ''.io''] ''auto'' all_available)) = []
   \<and> \<not> hasGoodPronounceability ''a''"
  using single_letter_auto_checks_nothing [of "[''.com'', ''.io'']" all_available] by blast

section \<open>Facts about the batch loop\<close>

lemma batch_loop_done: "\<not> i < length combos \<Longrightarrow> batch_loop net combos tld i st run = Inr (st, run)"
  by (subst batch_loop.simps) simp

lemma batch_loop_step:
  "i < length combos \<Longrightarrow> batch_body net combos tld i st run = Inr (st1, run1) \<Longrightarrow>
   batch_loop net combos tld i st run = batch_loop net combos tld (i + BATCH_SIZE) st1 run1"
  by (subst batch_loop.simps) simp

lemma batch_loop_abort:
  "i < length combos \<Longrightarrow> batch_body net combos tld i st run = Inl failure \<Longrightarrow>
   batch_loop net combos tld i st run = Inl failure"
  by (subst batch_loop.simps) simp

lemma batch_loop_Inr_induct [consumes 1, case_names finished iteration]:
  assumes run: "batch_loop net combos tld i st run = Inr (st', run')"
    and base: "\<And>i st run. \<not> i < length combos \<Longrightarrow> P i st run st run"
    and step: "\<And>i st run st1 run1 st' run'.
        i < length combos \<Longrightarrow>
        batch_body net combos tld i st run = Inr (st1, run1) \<Longrightarrow>
        batch_loop net combos tld (i + BATCH_SIZE) st1 run1 = Inr (st', run') \<Longrightarrow>
        P (i + BATCH_SIZE) st1 run1 st' run' \<Longrightarrow> P i st run st' run'"
  shows "P i st run st' run'"
  using run
proof (induction "length combos - i" arbitrary: i st run rule: less_induct)
  case less
  show ?case
  proof (cases "i < length combos")
    case False
    with less.prems have eq: "st' = st" "run' = run" by (simp_all add: batch_loop_done)
    from base [OF False] show ?thesis unfolding eq .
  next
    case True
    show ?thesis
    proof (cases "batch_body net combos tld i st run")
      case (Inl failure)
      with True less.prems show ?thesis by (simp add: batch_loop_abort)
    next
      case (Inr next_state)
      obtain st1 run1 where n: "next_state = (st1, run1)" by (cases next_state)
      with Inr have body: "batch_body net combos tld i st run = Inr (st1, run1)" by simp
      with True less.prems
      have rest: "batch_loop net combos tld (i + BATCH_SIZE) st1 run1 = Inr (st', run')"
        by (simp add: batch_loop_step)
      have smaller: "length combos - (i + BATCH_SIZE) < length combos - i"
        using True by (simp add: BATCH_SIZE_def)
      have "P (i + BATCH_SIZE) st1 run1 st' run'"
        using less.hyps [OF smaller rest] .
      with True body rest show ?thesis by (rule step)
    qed
  qed
qed

lemma batch_loop_completes:
  assumes "\<forall>n batch. batch \<noteq> [] \<longrightarrow> answered (net n batch)"
  shows "\<exists>st' run'. batch_loop net combos tld i st run = Inr (st', run')"
proof (induction "length combos - i" arbitrary: i st run rule: less_induct)
  case less
  show ?case
  proof (cases "i < length combos")
    case False
    then show ?thesis by (simp add: batch_loop_done)
  next
    case True
    then have "length (batch_at combos tld i) \<noteq> 0"
      unfolding length_batch_at by (simp add: BATCH_SIZE_def)
    then have "batch_at combos tld i \<noteq> []" by simp
    with assms have "answered (net (length (requests st)) (batch_at combos tld i))" by blast
    then have "\<exists>results. checkDomainsBatch (net (length (requests st))) (batch_at combos tld i)
                 = Inr results"
      by (simp only: checkDomainsBatch_answered)
    then have "\<exists>st1 run1. batch_body net combos tld i st run = Inr (st1, run1)"
      by (simp only: batch_body_Inr_iff)
    then obtain st1 run1 where body: "batch_body net combos tld i st run = Inr (st1, run1)"
      by blast
    have smaller: "length combos - (i + BATCH_SIZE) < length combos - i"
      using True by (simp add: BATCH_SIZE_def)
    from less.hyps [OF smaller, of st1 run1] True body show ?thesis
      by (simp add: batch_loop_step)
  qed
qed

lemma check_tld_completes:
  assumes "\<forall>n batch. batch \<noteq> [] \<longrightarrow> answered (net n batch)"
  shows "\<exists>st'. check_tld net combos tld st = Inr st'"
proof -
  from batch_loop_completes [OF assms] obtain st' run' where
    "batch_loop net combos tld 0 st \<lparr>pendingDomains = [], lastSavedAt = 0\<rparr> = Inr (st', run')"
    by blast
  then show ?thesis by (simp add: check_tld_def)
qed

lemma tld_loop_completes:
  assumes "\<forall>n batch. batch \<noteq> [] \<longrightarrow> answered (net n batch)"
  shows "\<exists>st'. tld_loop net combos tlds st = Inr st'"
proof (induction tlds arbitrary: st)
  case Nil
  then show ?case by simp
next
  case (Cons tld tlds)
  from check_tld_completes [OF assms] obtain st1 where "check_tld net combos tld st = Inr st1"
    by blast
  with Cons.IH [of st1] show ?case by simp
qed

lemma batches_shift:
  assumes "0 < d"
  shows "Suc ((d - 50 + 49) div 50) = (d + 49) div 50"
  using assms by (cases "d < 50") auto

lemma processed_counts_append [simp]:
  "processed_counts (xs @ ys) = processed_counts xs @ processed_counts ys"
  by (induction xs rule: processed_counts.induct) auto

lemma saved_counts_append [simp]:
  "saved_counts (xs @ ys) = saved_counts xs @ saved_counts ys"
  by (induction xs rule: saved_counts.induct) auto

lemma processed_counts_Available [simp]:
  "processed_counts (map Available names) = []"
  "processed_counts (map (Available \<circ> f) xs) = []"
  by (induction names, auto) (induction xs, auto)

lemma saved_counts_Available [simp]:
  "saved_counts (map Available names) = []"
  "saved_counts (map (Available \<circ> f) xs) = []"
  by (induction names, auto) (induction xs, auto)

lemma batch_body_console:
  assumes "batch_body net combos tld i st run = Inr (st', run')"
  shows "\<exists>new. console st' = console st @ new
           \<and> processed_counts new = [domainCounters st' tld]"
  using assms by (rule batch_body_InrE) (auto split: if_splits)

lemma batch_body_counter:
  assumes "batch_body net combos tld i st run = Inr (st', run')"
  shows "domainCounters st' =
           (domainCounters st)(tld := domainCounters st tld + min BATCH_SIZE (length combos - i))"
  using assms by (rule batch_body_InrE) (simp add: length_batch_at)

lemma expected_counts_step:
  assumes "0 < d"
  shows "map (\<lambda>k. c + min (50 * k) d) [1..<Suc ((d + 49) div 50)]
         = (c + min 50 d) # map (\<lambda>k. (c + min 50 d) + min (50 * k) (d - 50))
                              [1..<Suc ((d - 50 + 49) div 50)]"
proof -
  let ?m = "(d + 49) div 50"
  have m: "Suc ((d - 50 + 49) div 50) = ?m" using assms by (rule batches_shift)
  have "1 \<le> ?m" using assms by (simp add: Suc_le_eq div_greater_zero_iff)
  then have "[1..<Suc ?m] = 1 # map Suc [1..<?m]"
    by (simp add: upt_conv_Cons map_Suc_upt del: upt_Suc)
  moreover have "c + min (50 * Suc k) d = (c + min 50 d) + min (50 * k) (d - 50)"
    if "k \<in> set [1..<?m]" for k
  proof -
    from that have "1 \<le> k" "k < ?m" by auto
    then have "50 < d" by (cases "d \<le> 50") auto
    then show ?thesis by auto
  qed
  ultimately show ?thesis
    unfolding m by (simp add: comp_def del: upt_Suc cong: map_cong)
qed

lemma batch_body_requests_length:
  assumes "batch_body net combos tld i st run = Inr (st', run')"
  shows "length (requests st') = Suc (length (requests st))"
  using assms by (rule batch_body_InrE) simp

lemma batch_loop_trace:
  assumes "batch_loop net combos tld i st run = Inr (st', run')"
  shows "(\<exists>new. console st' = console st @ new
            \<and> processed_counts new =
                map (\<lambda>k. domainCounters st tld + min (50 * k) (length combos - i))
                  [1..<Suc ((length combos - i + 49) div 50)])
       \<and> domainCounters st' = (domainCounters st)(tld := domainCounters st tld + (length combos - i))
       \<and> length (requests st') = length (requests st) + (length combos - i + 49) div 50"
  using assms
proof (induction rule: batch_loop_Inr_induct)
  case (finished i st run)
  then show ?case by simp
next
  case (iteration i st run st1 run1 st' run')
  define d where "d = length combos - i"
  define c where "c = domainCounters st tld"
  have d: "0 < d" using iteration.hyps(1) by (simp add: d_def)
  have rest: "length combos - (i + BATCH_SIZE) = d - 50"
    by (simp add: d_def BATCH_SIZE_def)
  have c1: "domainCounters st1 = (domainCounters st)(tld := c + min 50 d)"
    using batch_body_counter [OF iteration.hyps(2)] by (simp add: c_def d_def BATCH_SIZE_def)
  then have c1': "domainCounters st1 tld = c + min 50 d" by simp
  obtain new1 where new1: "console st1 = console st @ new1"
      "processed_counts new1 = [c + min 50 d]"
    using batch_body_console [OF iteration.hyps(2)] c1' by auto
  from iteration.IH obtain new2 where new2: "console st' = console st1 @ new2"
      "processed_counts new2 =
         map (\<lambda>k. (c + min 50 d) + min (50 * k) (d - 50)) [1..<Suc ((d - 50 + 49) div 50)]"
    unfolding rest c1' by blast
  have "console st' = console st @ (new1 @ new2)"
    using new1(1) new2(1) by simp
  moreover have "processed_counts (new1 @ new2)
      = map (\<lambda>k. c + min (50 * k) d) [1..<Suc ((d + 49) div 50)]"
    using new1(2) new2(2) expected_counts_step [OF d, of c] by simp
  ultimately have trace: "\<exists>new. console st' = console st @ new
      \<and> processed_counts new = map (\<lambda>k. c + min (50 * k) d) [1..<Suc ((d + 49) div 50)]"
    by blast
  from iteration.IH have "domainCounters st' =
      (domainCounters st1)(tld := domainCounters st1 tld + (d - 50))"
    unfolding rest by blast
  then have counter: "domainCounters st' = (domainCounters st)(tld := c + d)"
    using d unfolding c1 by (auto simp: fun_eq_iff)
  from iteration.IH have "length (requests st') = length (requests st1) + (d - 50 + 49) div 50"
    unfolding rest by blast
  then have reqs: "length (requests st') = length (requests st) + (d + 49) div 50"
    using batch_body_requests_length [OF iteration.hyps(2)] batches_shift [OF d] by simp
  from trace counter reqs show ?case
    unfolding d_def [symmetric] c_def [symmetric] by blast
qed

lemma check_tld_InrE:
  assumes "check_tld net combos tld st = Inr st'"
  obtains st1 run1 where
    "batch_loop net combos tld 0 st \<lparr>pendingDomains = [], lastSavedAt = 0\<rparr> = Inr (st1, run1)"
    "domainCounters st' = domainCounters st1"
    "requests st' = requests st1"
    "available st' = available st1"
    "console st' = console st1 @
       (if pendingDomains run1 = [] then [] else [SavedFinal (length (pendingDomains run1)) tld])"
  using assms
  by (auto simp: check_tld_def split: sum.splits prod.splits if_splits)

lemma check_tld_trace:
  assumes "check_tld net combos tld st = Inr st'"
  shows "(\<exists>new. console st' = console st @ new
            \<and> processed_counts new =
                map (\<lambda>k. domainCounters st tld + min (50 * k) (length combos))
                  [1..<Suc ((length combos + 49) div 50)])
       \<and> domainCounters st' = (domainCounters st)(tld := domainCounters st tld + length combos)
       \<and> length (requests st') = length (requests st) + (length combos + 49) div 50"
proof -
  from assms obtain st1 run1 where
    loop: "batch_loop net combos tld 0 st \<lparr>pendingDomains = [], lastSavedAt = 0\<rparr> = Inr (st1, run1)"
    and same: "domainCounters st' = domainCounters st1" "requests st' = requests st1"
    and con: "console st' = console st1 @
       (if pendingDomains run1 = [] then [] else [SavedFinal (length (pendingDomains run1)) tld])"
    by (rule check_tld_InrE)
  from batch_loop_trace [OF loop] obtain new where
    new: "console st1 = console st @ new"
      "processed_counts new = map (\<lambda>k. domainCounters st tld + min (50 * k) (length combos))
                  [1..<Suc ((length combos + 49) div 50)]"
    and rest: "domainCounters st1 = (domainCounters st)(tld := domainCounters st tld + length combos)"
      "length (requests st1) = length (requests st) + (length combos + 49) div 50"
    by auto
  let ?new = "new @ (if pendingDomains run1 = [] then []
                     else [SavedFinal (length (pendingDomains run1)) tld])"
  have "console st' = console st @ ?new" using con new(1) by simp
  moreover have "processed_counts ?new = map (\<lambda>k. domainCounters st tld + min (50 * k) (length combos))
                  [1..<Suc ((length combos + 49) div 50)]"
    using new(2) by simp
  ultimately show ?thesis using same rest by auto
qed

lemma tld_loop_counters:
  "tld_loop net combos tlds st = Inr st' \<Longrightarrow> distinct tlds \<Longrightarrow>
   domainCounters st' =
     (\<lambda>tld. if tld \<in> set tlds then domainCounters st tld + length combos
            else domainCounters st tld)"
proof (induction tlds arbitrary: st)
  case Nil
  then show ?case by simp
next
  case (Cons tld tlds)
  from Cons.prems(1) obtain st1 where
    first: "check_tld net combos tld st = Inr st1" and rest: "tld_loop net combos tlds st1 = Inr st'"
    by (auto split: sum.splits)
  have c1: "domainCounters st1 = (domainCounters st)(tld := domainCounters st tld + length combos)"
    using check_tld_trace [OF first] by blast
  have "domainCounters st' =
     (\<lambda>t. if t \<in> set tlds then domainCounters st1 t + length combos else domainCounters st1 t)"
    using Cons.IH [OF rest] Cons.prems(2) by simp
  then show ?case
    using Cons.prems(2) unfolding c1 by (auto simp: fun_eq_iff)
qed

lemma tld_loop_requests_length:
  "tld_loop net combos tlds st = Inr st' \<Longrightarrow>
   length (requests st') = length (requests st) + length tlds * ((length combos + 49) div 50)"
proof (induction tlds arbitrary: st)
  case Nil
  then show ?case by simp
next
  case (Cons tld tlds)
  from Cons.prems(1) obtain st1 where
    first: "check_tld net combos tld st = Inr st1" and rest: "tld_loop net combos tlds st1 = Inr st'"
    by (auto split: sum.splits)
  have "length (requests st1) = length (requests st) + (length combos + 49) div 50"
    using check_tld_trace [OF first] by blast
  with Cons.IH [OF rest] show ?case by simp
qed

lemma tld_loop_processed:
  "tld_loop net combos tlds st = Inr st' \<Longrightarrow> distinct tlds \<Longrightarrow>
   \<forall>tld \<in> set tlds. domainCounters st tld = 0 \<Longrightarrow>
   \<exists>new. console st' = console st @ new
     \<and> processed_counts new =
         concat (replicate (length tlds)
           (map (\<lambda>k. min (50 * k) (length combos)) [1..<Suc ((length combos + 49) div 50)]))"
proof (induction tlds arbitrary: st)
  case Nil
  then show ?case by simp
next
  case (Cons tld tlds)
  from Cons.prems(1) obtain st1 where
    first: "check_tld net combos tld st = Inr st1" and rest: "tld_loop net combos tlds st1 = Inr st'"
    by (auto split: sum.splits)
  from check_tld_trace [OF first] Cons.prems(3) obtain new1 where
    new1: "console st1 = console st @ new1"
      "processed_counts new1
         = map (\<lambda>k. min (50 * k) (length combos)) [1..<Suc ((length combos + 49) div 50)]"
    and c1: "domainCounters st1 = (domainCounters st)(tld := domainCounters st tld + length combos)"
    by auto
  have "\<forall>t \<in> set tlds. domainCounters st1 t = 0"
    using Cons.prems(2,3) unfolding c1 by auto
  with Cons.IH [OF rest] Cons.prems(2) obtain new2 where
    new2: "console st' = console st1 @ new2"
      "processed_counts new2 =
         concat (replicate (length tlds)
           (map (\<lambda>k. min (50 * k) (length combos)) [1..<Suc ((length combos + 49) div 50)]))"
    by auto
  have "console st' = console st @ (new1 @ new2)" using new1(1) new2(1) by simp
  moreover have "processed_counts (new1 @ new2) =
         concat (replicate (length (tld # tlds))
           (map (\<lambda>k. min (50 * k) (length combos)) [1..<Suc ((length combos + 49) div 50)]))"
    using new1(2) new2(2) by simp
  ultimately show ?case by blast
qed

section \<open>Claims about the checked counter\<close>

text \<open>
  Claim C7, as the specification states it, gives the counter of a TLD the value
  \<open>min (50 * k) total\<close> after the \<open>k\<close>-th batch of the TLD's run and \<open>total\<close> at its end.
  The counter is kept per TLD name and is set to zero once, before the first run: for a
  TLD list that names \<open>.io\<close> twice, with one letter and no filter (26 combinations, one
  batch), the second run leaves the counter at 52.
\<close>

theorem checked_counter_repeated_tld_counterexample:
  "map_option (\<lambda>allCombos. length (filterByPattern 1 allCombos ''none'')) (generateCombos 1)
     = Some 26
   \<and> processed_counts (console (final_state (main 1 [''.io'', ''.io''] ''none'' all_taken)))
     = [26, 52]
   \<and> domainCounters (final_state (main 1 [''.io'', ''.io''] ''none'' all_taken)) ''.io'' \<noteq> 26"
proof -
  have "map_option (\<lambda>allCombos. length (filterByPattern 1 allCombos ''none'')) (generateCombos 1)
     = Some 26"
    by code_simp
  moreover have "processed_counts (console (final_state (main 1 [''.io'', ''.io''] ''none'' all_taken)))
     = [26, 52]"
    by code_simp
  moreover have "domainCounters (final_state (main 1 [''.io'', ''.io''] ''none'' all_taken)) ''.io'' = 52"
    by code_simp
  ultimately show ?thesis by simp
qed

text \<open>
  Claim C7, amended. A batch that is answered increases the counter of its TLD by exactly
  the number of candidates in the batch, which is 50 or, for the last batch, what is
  left. So in a TLD's run the progress line after the \<open>k\<close>-th batch shows the counter's
  value at the start of the run plus \<open>min (50 * k) total\<close>, and the run ends with that
  start value plus \<open>total\<close>; a run whose queries are all answered does end. In a run of
  the program over a TLD list without repetitions the start value is zero for every TLD:
  the progress lines show \<open>min (50 * k) total\<close> for \<open>k\<close> from 1 to the number of batches, once
  for each TLD, and every counter ends at \<open>total\<close>.
\<close>

theorem checked_counter_follows_batches:
  "(batch_body net combos tld i st run = Inr (st1, run1) \<longrightarrow>
      domainCounters st1 tld = domainCounters st tld + length (batch_at combos tld i)
      \<and> length (batch_at combos tld i) = min BATCH_SIZE (length combos - i)
      \<and> last (requests st1) = batch_at combos tld i)
   \<and> (check_tld net combos tld st = Inr st' \<longrightarrow>
        (\<exists>new. console st' = console st @ new
           \<and> processed_counts new =
               map (\<lambda>k. domainCounters st tld + min (BATCH_SIZE * k) (length combos))
                 [1..<Suc ((length combos + 49) div 50)])
        \<and> domainCounters st' tld = domainCounters st tld + length combos)
   \<and> ((\<forall>n batch. batch \<noteq> [] \<longrightarrow> answered (net n batch)) \<longrightarrow>
        (\<exists>st'. check_tld net combos tld st = Inr st'))
   \<and> (distinct tlds \<and> generateCombos numberOfLetters = Some allCombos
        \<and> main numberOfLetters tlds patternArg net = Inr final \<longrightarrow>
        (\<forall>tld \<in> set tlds.
           domainCounters final tld
             = length (filterByPattern numberOfLetters allCombos patternArg))
        \<and> processed_counts (console final) =
            concat (replicate (length tlds)
              (map (\<lambda>k. min (BATCH_SIZE * k)
                          (length (filterByPattern numberOfLetters allCombos patternArg)))
                 [1..<Suc ((length (filterByPattern numberOfLetters allCombos patternArg) + 49)
                            div 50)])))"
proof -
  have body: "domainCounters st1 tld = domainCounters st tld + length (batch_at combos tld i)
      \<and> length (batch_at combos tld i) = min BATCH_SIZE (length combos - i)
      \<and> last (requests st1) = batch_at combos tld i"
    if "batch_body net combos tld i st run = Inr (st1, run1)"
    using that by (rule batch_body_InrE) (simp add: length_batch_at)
  have run: "(\<exists>new. console st' = console st @ new
           \<and> processed_counts new =
               map (\<lambda>k. domainCounters st tld + min (BATCH_SIZE * k) (length combos))
                 [1..<Suc ((length combos + 49) div 50)])
        \<and> domainCounters st' tld = domainCounters st tld + length combos"
    if "check_tld net combos tld st = Inr st'"
    using check_tld_trace [OF that] by (simp add: BATCH_SIZE_def)
  have total: "\<exists>st'. check_tld net combos tld st = Inr st'"
    if "\<forall>n batch. batch \<noteq> [] \<longrightarrow> answered (net n batch)"
    using that by (rule check_tld_completes)
  have whole: "(\<forall>tld \<in> set tlds.
           domainCounters final tld = length (filterByPattern numberOfLetters allCombos patternArg))
        \<and> processed_counts (console final) =
            concat (replicate (length tlds)
              (map (\<lambda>k. min (BATCH_SIZE * k)
                          (length (filterByPattern numberOfLetters allCombos patternArg)))
                 [1..<Suc ((length (filterByPattern numberOfLetters allCombos patternArg) + 49)
                            div 50)]))"
    if d: "distinct tlds" and g: "generateCombos numberOfLetters = Some allCombos"
      and m: "main numberOfLetters tlds patternArg net = Inr final"
  proof -
    from m g have loop: "tld_loop net (filterByPattern numberOfLetters allCombos patternArg) tlds
        init_state = Inr final"
      by (simp add: main_def split: if_splits)
    have zero: "\<forall>tld \<in> set tlds. domainCounters init_state tld = 0"
      by (simp add: init_state_def)
    from tld_loop_processed [OF loop d zero]
    have "processed_counts (console final) =
            concat (replicate (length tlds)
              (map (\<lambda>k. min (BATCH_SIZE * k)
                          (length (filterByPattern numberOfLetters allCombos patternArg)))
                 [1..<Suc ((length (filterByPattern numberOfLetters allCombos patternArg) + 49)
                            div 50)]))"
      by (auto simp: init_state_def BATCH_SIZE_def)
    with tld_loop_counters [OF loop d] show ?thesis
      by (simp add: init_state_def)
  qed
  from body run total whole show ?thesis by blast
qed

theorem checked_counter_follows_batches_witness:
  "(\<exists>final. check_tld all_taken (replicate 120 ''ab'') ''.io'' init_state = Inr final
      \<and> processed_counts (console final) = [50, 100, 120]
      \<and> domainCounters final ''.io'' = 120)
   \<and> distinct [''.io'', ''.com'']
   \<and> (\<exists>final. main 1 [''.io'', ''.com''] ''none'' all_taken = Inr final
         \<and> domainCounters final ''.io'' = 26 \<and> domainCounters final ''.com'' = 26
         \<and> processed_counts (console final) = [26, 26])"
proof -
  have answered: "\<forall>n batch. batch \<noteq> [] \<longrightarrow> answered (all_taken n batch)"
    by (simp add: answered_def all_taken_def)
  note fact = checked_counter_follows_batches
  from fact [where net = all_taken and combos = "replicate 120 ''ab''" and tld = "''.io''"
               and st = init_state] answered
  obtain final where f: "check_tld all_taken (replicate 120 ''ab'') ''.io'' init_state = Inr final"
    by blast
  from fact [where net = all_taken and combos = "replicate 120 ''ab''" and tld = "''.io''"
               and st = init_state and st' = final] f
  obtain new where new: "console final = console init_state @ new"
      "processed_counts new =
         map (\<lambda>k. domainCounters init_state ''.io'' + min (BATCH_SIZE * k) (length (replicate 120 ''ab'')))
           [1..<Suc ((length (replicate 120 ''ab'') + 49) div 50)]"
    and c: "domainCounters final ''.io'' = domainCounters init_state ''.io'' + length (replicate 120 ''ab'')"
    by blast
  have three: "[1..<Suc ((120 + 49) div 50)] = [1, 2, 3]"
    by code_simp
  have part1: "processed_counts (console final) = [50, 100, 120] \<and> domainCounters final ''.io'' = 120"
    using new c three by (simp add: init_state_def BATCH_SIZE_def)
  have d: "distinct [''.io'', ''.com'']" by simp
  have g: "generateCombos 1 = Some (lex_words 1)" by (rule generateCombos_eq)
  have "isl (main 1 [''.io'', ''.com''] ''none'' all_taken) = False" by code_simp
  then obtain final2 where m: "main 1 [''.io'', ''.com''] ''none'' all_taken = Inr final2"
    by (cases "main 1 [''.io'', ''.com''] ''none'' all_taken") auto
  from fact [where net = all_taken and tlds = "[''.io'', ''.com'']" and numberOfLetters = 1
               and allCombos = "lex_words 1" and patternArg = "''none''" and final = final2] d g m
  have whole: "(\<forall>tld \<in> set [''.io'', ''.com''].
           domainCounters final2 tld = length (filterByPattern 1 (lex_words 1) ''none''))
        \<and> processed_counts (console final2) =
            concat (replicate (length [''.io'', ''.com''])
              (map (\<lambda>k. min (BATCH_SIZE * k) (length (filterByPattern 1 (lex_words 1) ''none'')))
                 [1..<Suc ((length (filterByPattern 1 (lex_words 1) ''none'') + 49) div 50)]))"
    by blast
  have len: "length (filterByPattern 1 (lex_words 1) ''none'') = 26"
    using length_lex_words [of 1] by (simp add: filterByPattern_def)
  have part2: "domainCounters final2 ''.io'' = 26 \<and> domainCounters final2 ''.com'' = 26"
    using whole len by simp
  have one: "[1..<Suc ((26 + 49) div 50)] = [1]" by code_simp
  have part3: "processed_counts (console final2) = [26, 26]"
    using whole unfolding len one by (simp add: BATCH_SIZE_def)
  from f part1 d m part2 part3 show ?thesis by blast
qed

section \<open>Facts about the requests of a run\<close>

lemma batches_from_done: "\<not> i < length combos \<Longrightarrow> batches_from combos tld i = []"
  by (simp add: batches_from_def)

lemma batches_from_step:
  assumes "i < length combos"
  shows "batches_from combos tld i
         = batch_at combos tld i # batches_from combos tld (i + BATCH_SIZE)"
proof -
  define d where "d = length combos - i"
  have d: "0 < d" using assms by (simp add: d_def)
  let ?m = "(d + 49) div 50"
  let ?f = "\<lambda>k. map (\<lambda>combo. combo @ tld) (take 50 (drop (i + 50 * k) combos))"
  have m: "Suc ((d - 50 + 49) div 50) = ?m" using d by (rule batches_shift)
  have rest: "length combos - (i + BATCH_SIZE) = d - 50"
    by (simp add: d_def BATCH_SIZE_def)
  have "[0..<?m] = 0 # map Suc [0..<(d - 50 + 49) div 50]"
    unfolding m [symmetric] by (simp add: upt_conv_Cons map_Suc_upt del: upt_Suc)
  then have "map ?f [0..<?m] = ?f 0 # map (\<lambda>k. ?f (Suc k)) [0..<(d - 50 + 49) div 50]"
    by (simp add: comp_def)
  moreover have "?f 0 = batch_at combos tld i"
    by (simp add: batch_at_def slice_def BATCH_SIZE_def)
  moreover have "map (\<lambda>k. ?f (Suc k)) [0..<(d - 50 + 49) div 50]
      = batches_from combos tld (i + BATCH_SIZE)"
    unfolding batches_from_def rest by (simp add: BATCH_SIZE_def add.assoc)
  ultimately show ?thesis
    unfolding batches_from_def d_def [symmetric] by simp
qed

lemma concat_batches_from:
  "concat (batches_from combos tld i) = map (\<lambda>combo. combo @ tld) (drop i combos)"
proof (induction "length combos - i" arbitrary: i rule: less_induct)
  case less
  show ?case
  proof (cases "i < length combos")
    case False
    then show ?thesis by (simp add: batches_from_done)
  next
    case True
    have smaller: "length combos - (i + BATCH_SIZE) < length combos - i"
      using True by (simp add: BATCH_SIZE_def)
    have "concat (batches_from combos tld i)
        = map (\<lambda>combo. combo @ tld) (take 50 (drop i combos))
          @ map (\<lambda>combo. combo @ tld) (drop (50 + i) combos)"
      using less.hyps [OF smaller] True
      by (simp add: batches_from_step batch_at_def slice_def BATCH_SIZE_def add.commute)
    also have "\<dots> = map (\<lambda>combo. combo @ tld) (drop i combos)"
      by (metis append_take_drop_id drop_drop map_append)
    finally show ?thesis .
  qed
qed

lemma batch_loop_requests:
  assumes "batch_loop net combos tld i st run = Inr (st', run')"
  shows "requests st' = requests st @ batches_from combos tld i"
  using assms
proof (induction rule: batch_loop_Inr_induct)
  case (finished i st run)
  then show ?case by (simp add: batches_from_done)
next
  case (iteration i st run st1 run1 st' run')
  have "requests st1 = requests st @ [batch_at combos tld i]"
    using iteration.hyps(2) by (rule batch_body_InrE)
  with iteration.IH iteration.hyps(1) show ?case
    by (simp add: batches_from_step)
qed

lemma check_tld_requests:
  assumes "check_tld net combos tld st = Inr st'"
  shows "requests st' = requests st @ batches_from combos tld 0"
proof -
  from assms obtain st1 run1 where
    loop: "batch_loop net combos tld 0 st \<lparr>pendingDomains = [], lastSavedAt = 0\<rparr> = Inr (st1, run1)"
    and same: "requests st' = requests st1"
    by (rule check_tld_InrE)
  from batch_loop_requests [OF loop] same show ?thesis by simp
qed

lemma tld_loop_requests:
  "tld_loop net combos tlds st = Inr st' \<Longrightarrow>
   requests st' = requests st @ concat (map (\<lambda>tld. batches_from combos tld 0) tlds)"
proof (induction tlds arbitrary: st)
  case Nil
  then show ?case by simp
next
  case (Cons tld tlds)
  from Cons.prems obtain st1 where
    first: "check_tld net combos tld st = Inr st1" and rest: "tld_loop net combos tlds st1 = Inr st'"
    by (auto split: sum.splits)
  from check_tld_requests [OF first] Cons.IH [OF rest] show ?case by simp
qed

lemma batch_loop_until_rejected:
  assumes before: "\<forall>n batch. n < R \<longrightarrow> batch \<noteq> [] \<longrightarrow> answered (net n batch)"
    and at: "\<forall>batch. net R batch = Rejected"
  shows "length (requests st) \<le> R \<Longrightarrow>
    (if R - length (requests st) < length (batches_from combos tld i)
     then \<exists>st1. batch_loop net combos tld i st run = Inl (FetchRejected, st1)
            \<and> requests st1
                = requests st @ take (Suc (R - length (requests st))) (batches_from combos tld i)
     else \<exists>st' run'. batch_loop net combos tld i st run = Inr (st', run'))"
proof (induction "length combos - i" arbitrary: i st run rule: less_induct)
  case less
  show ?case
  proof (cases "i < length combos")
    case False
    then show ?thesis by (simp add: batches_from_done batch_loop_done)
  next
    case True
    note unfold = batches_from_step [OF True, of tld]
    have smaller: "length combos - (i + BATCH_SIZE) < length combos - i"
      using True by (simp add: BATCH_SIZE_def)
    have "length (batch_at combos tld i) \<noteq> 0"
      unfolding length_batch_at using True by (simp add: BATCH_SIZE_def)
    then have nonempty: "batch_at combos tld i \<noteq> []" by simp
    show ?thesis
    proof (cases "length (requests st) = R")
      case True
      with at have "checkDomainsBatch (net (length (requests st))) (batch_at combos tld i)
          = Inl FetchRejected"
        by (simp add: checkDomainsBatch_def)
      then have "batch_body net combos tld i st run
          = Inl (FetchRejected, st\<lparr>requests := requests st @ [batch_at combos tld i]\<rparr>)"
        by (simp add: batch_body_def Let_def)
      with \<open>i < length combos\<close>
      have "batch_loop net combos tld i st run
          = Inl (FetchRejected, st\<lparr>requests := requests st @ [batch_at combos tld i]\<rparr>)"
        by (simp add: batch_loop_abort)
      with True show ?thesis by (simp add: unfold)
    next
      case False
      with less.prems have lt: "length (requests st) < R" by simp
      with before nonempty
      have "answered (net (length (requests st)) (batch_at combos tld i))" by blast
      then have "\<exists>results. checkDomainsBatch (net (length (requests st))) (batch_at combos tld i)
                   = Inr results"
        by (simp only: checkDomainsBatch_answered)
      then have "\<exists>st1 run1. batch_body net combos tld i st run = Inr (st1, run1)"
        by (simp only: batch_body_Inr_iff)
      then obtain st1 run1 where body: "batch_body net combos tld i st run = Inr (st1, run1)"
        by blast
      have r1: "requests st1 = requests st @ [batch_at combos tld i]"
        using body by (rule batch_body_InrE)
      then have le1: "length (requests st1) \<le> R" using lt by simp
      note step = batch_loop_step [OF \<open>i < length combos\<close> body]
      note ih = less.hyps [OF smaller le1, of run1]
      have shift: "R - length (requests st1) = R - length (requests st) - 1"
        using r1 by simp
      show ?thesis
      proof (cases "R - length (requests st1) < length (batches_from combos tld (i + BATCH_SIZE))")
        case True
        with ih obtain st2 where
          "batch_loop net combos tld (i + BATCH_SIZE) st1 run1 = Inl (FetchRejected, st2)"
          "requests st2 = requests st1
             @ take (Suc (R - length (requests st1))) (batches_from combos tld (i + BATCH_SIZE))"
          by auto
        moreover have "R - length (requests st) < length (batches_from combos tld i)"
          using True lt shift by (simp add: unfold)
        moreover have "Suc (R - length (requests st1)) = R - length (requests st)"
          using lt shift by simp
        ultimately show ?thesis
          using r1 lt by (simp add: step unfold take_Cons')
      next
        case False
        with ih obtain st2 run2 where
          "batch_loop net combos tld (i + BATCH_SIZE) st1 run1 = Inr (st2, run2)"
          by auto
        moreover have "\<not> R - length (requests st) < length (batches_from combos tld i)"
          using False lt shift by (simp add: unfold)
        ultimately show ?thesis by (simp add: step)
      qed
    qed
  qed
qed

lemma check_tld_until_rejected:
  assumes before: "\<forall>n batch. n < R \<longrightarrow> batch \<noteq> [] \<longrightarrow> answered (net n batch)"
    and at: "\<forall>batch. net R batch = Rejected"
    and le: "length (requests st) \<le> R"
  shows "if R - length (requests st) < length (batches_from combos tld 0)
     then \<exists>st1. check_tld net combos tld st = Inl (FetchRejected, st1)
            \<and> requests st1
                = requests st @ take (Suc (R - length (requests st))) (batches_from combos tld 0)
     else \<exists>st'. check_tld net combos tld st = Inr st'"
  using batch_loop_until_rejected [OF before at le, of combos tld 0
          "\<lparr>pendingDomains = [], lastSavedAt = 0\<rparr>"]
  by (auto simp: check_tld_def)

lemma tld_loop_until_rejected:
  assumes before: "\<forall>n batch. n < R \<longrightarrow> batch \<noteq> [] \<longrightarrow> answered (net n batch)"
    and at: "\<forall>batch. net R batch = Rejected"
  shows "length (requests st) \<le> R \<Longrightarrow>
    (if R - length (requests st) < length (concat (map (\<lambda>tld. batches_from combos tld 0) tlds))
     then \<exists>st1. tld_loop net combos tlds st = Inl (FetchRejected, st1)
            \<and> requests st1
                = requests st @ take (Suc (R - length (requests st)))
                                  (concat (map (\<lambda>tld. batches_from combos tld 0) tlds))
     else \<exists>st'. tld_loop net combos tlds st = Inr st')"
proof (induction tlds arbitrary: st)
  case Nil
  then show ?case by simp
next
  case (Cons tld tlds)
  let ?first = "batches_from combos tld 0"
  let ?rest = "concat (map (\<lambda>tld. batches_from combos tld 0) tlds)"
  note first = check_tld_until_rejected [OF before at Cons.prems, of combos tld]
  show ?case
  proof (cases "R - length (requests st) < length ?first")
    case True
    with first obtain st1 where
      "check_tld net combos tld st = Inl (FetchRejected, st1)"
      "requests st1 = requests st @ take (Suc (R - length (requests st))) ?first"
      by auto
    with True show ?thesis by simp
  next
    case False
    with first obtain st1 where run: "check_tld net combos tld st = Inr st1" by auto
    have r1: "requests st1 = requests st @ ?first"
      using run by (rule check_tld_requests)
    with False Cons.prems have le1: "length (requests st1) \<le> R" by simp
    have shift: "R - length (requests st1) = R - length (requests st) - length ?first"
      using r1 by simp
    note ih = Cons.IH [OF le1]
    show ?thesis
    proof (cases "R - length (requests st1) < length ?rest")
      case True
      with ih obtain st2 where
        "tld_loop net combos tlds st1 = Inl (FetchRejected, st2)"
        "requests st2 = requests st1 @ take (Suc (R - length (requests st1))) ?rest"
        by auto
      moreover have "Suc (R - length (requests st)) - length ?first
          = Suc (R - length (requests st1))"
        using False shift by simp
      ultimately show ?thesis
        using run r1 True False shift by simp
    next
      case enough: False
      with ih obtain st2 where "tld_loop net combos tlds st1 = Inr st2" by auto
      with run False enough shift show ?thesis by simp
    qed
  qed
qed

lemma checkDomainsBatch_refused:
  "fetch domains = Resolved response \<Longrightarrow> \<not> ok response \<Longrightarrow>
   body_text response = Some message \<Longrightarrow> checkDomainsBatch fetch domains = Inr []"
  by (simp add: checkDomainsBatch_def)

lemma checkDomainsBatch_rejected:
  "fetch domains = Rejected \<Longrightarrow> checkDomainsBatch fetch domains = Inl FetchRejected"
  by (simp add: checkDomainsBatch_def)

lemma batch_body_refused:
  assumes "checkDomainsBatch (net (length (requests st))) (batch_at combos tld i) = Inr []"
  shows "\<exists>st1 run1. batch_body net combos tld i st run = Inr (st1, run1)
           \<and> requests st1 = requests st @ [batch_at combos tld i]
           \<and> available st1 = available st
           \<and> domainCounters st1 tld = domainCounters st tld + length (batch_at combos tld i)
           \<and> (files st1 = files st \<and> pendingDomains run1 = pendingDomains run
                \<or> files st1 = appendDomainsToFile (files st) tld (pendingDomains run)
                  \<and> pendingDomains run1 = [])"
  using assms by (auto simp: batch_body_def Let_def)

lemma main_is_tld_loop:
  "1 \<le> numberOfLetters \<Longrightarrow> generateCombos numberOfLetters = Some allCombos \<Longrightarrow>
   main numberOfLetters tlds patternArg net
     = tld_loop net (filterByPattern numberOfLetters allCombos patternArg) tlds init_state"
  by (simp add: main_def)

section \<open>Claims about failed queries\<close>

text \<open>
  Claim C3, as the specification states it, has every failed query, a transport failure
  included, give an empty result for its batch while the run goes on. The source has no
  handler around \<open>fetch\<close>: when the network is down the first query of the run ends it.
  With one letter, no filter and two TLDs, one request is sent and nothing is processed.
\<close>

theorem transport_failure_aborts_counterexample:
  "checkDomainsBatch (network_down 0) [''a.io''] = Inl FetchRejected
   \<and> isl (main 1 [''.io'', ''.com''] ''none'' network_down)
   \<and> fst (projl (main 1 [''.io'', ''.com''] ''none'' network_down)) = FetchRejected
   \<and> length (requests (final_state (main 1 [''.io'', ''.com''] ''none'' network_down))) = 1
   \<and> console (final_state (main 1 [''.io'', ''.com''] ''none'' network_down)) = []"
proof -
  have "checkDomainsBatch (network_down 0) [''a.io''] = Inl FetchRejected"
    by (simp add: checkDomainsBatch_def network_down_def)
  moreover have "isl (main 1 [''.io'', ''.com''] ''none'' network_down)"
    by code_simp
  moreover have "fst (projl (main 1 [''.io'', ''.com''] ''none'' network_down)) = FetchRejected"
    by code_simp
  moreover have "length (requests (final_state (main 1 [''.io'', ''.com''] ''none'' network_down))) = 1"
    by code_simp
  moreover have "console (final_state (main 1 [''.io'', ''.com''] ''none'' network_down)) = []"
    by code_simp
  ultimately show ?thesis by blast
qed

text \<open>
  Claim C3, amended. A response that is not a success, with a body that can be read,
  gives the empty result sequence for its batch: the batch is sent, adds nothing to the
  available names of its TLD, nothing of it becomes pending, its candidates are counted
  as checked, and the loop goes on with the next batch. When every query is answered in
  that way or with a readable success, the run completes and its requests are, for every
  TLD in order, the candidates of the TLD in order in groups of 50. A rejected \<open>fetch\<close>
  is not turned into a result: when the queries before it are answered, the run ends
  with that failure and has sent the batches up to the rejected one and no other.
\<close>

theorem refused_batch_is_skipped:
  "(fetch domains = Resolved response \<and> \<not> ok response \<and> body_text response = Some message \<longrightarrow>
      checkDomainsBatch fetch domains = Inr [])
   \<and> (net (length (requests st)) (batch_at combos tld i) = Resolved response
        \<and> \<not> ok response \<and> body_text response = Some message \<longrightarrow>
        (\<exists>st1 run1. batch_body net combos tld i st run = Inr (st1, run1)
           \<and> requests st1 = requests st @ [batch_at combos tld i]
           \<and> available st1 = available st
           \<and> domainCounters st1 tld = domainCounters st tld + length (batch_at combos tld i)
           \<and> (files st1 = files st \<and> pendingDomains run1 = pendingDomains run
                \<or> files st1 = appendDomainsToFile (files st) tld (pendingDomains run)
                  \<and> pendingDomains run1 = [])))
   \<and> (i < length combos \<and> batch_body net combos tld i st run = Inr (st1, run1) \<longrightarrow>
        batch_loop net combos tld i st run
          = batch_loop net combos tld (i + BATCH_SIZE) st1 run1)
   \<and> concat (batches_from combos tld 0) = map (\<lambda>combo. combo @ tld) combos
   \<and> ((\<forall>n batch. batch \<noteq> [] \<longrightarrow> answered (net n batch)) \<longrightarrow>
        (\<exists>st'. tld_loop net combos tlds st = Inr st'
           \<and> requests st'
               = requests st @ concat (map (\<lambda>tld. batches_from combos tld 0) tlds)
           \<and> length (requests st')
               = length (requests st) + length tlds * ((length combos + 49) div 50)))
   \<and> (1 \<le> numberOfLetters \<and> generateCombos numberOfLetters = Some allCombos
        \<and> (\<forall>n batch. batch \<noteq> [] \<longrightarrow> answered (net n batch)) \<longrightarrow>
        (\<exists>st'. main numberOfLetters tlds patternArg net = Inr st'
           \<and> requests st'
               = concat (map (\<lambda>tld. batches_from
                    (filterByPattern numberOfLetters allCombos patternArg) tld 0) tlds)))
   \<and> (fetch domains = Rejected \<longrightarrow> checkDomainsBatch fetch domains = Inl FetchRejected)
   \<and> (i < length combos \<and> net (length (requests st)) (batch_at combos tld i) = Rejected \<longrightarrow>
        batch_loop net combos tld i st run
          = Inl (FetchRejected, st\<lparr>requests := requests st @ [batch_at combos tld i]\<rparr>))
   \<and> ((\<forall>n batch. n < length (requests st) + m \<longrightarrow> batch \<noteq> [] \<longrightarrow> answered (net n batch))
        \<and> (\<forall>batch. net (length (requests st) + m) batch = Rejected)
        \<and> m < length (concat (map (\<lambda>tld. batches_from combos tld 0) tlds)) \<longrightarrow>
        (\<exists>st1. tld_loop net combos tlds st = Inl (FetchRejected, st1)
           \<and> requests st1
               = requests st
                 @ take (Suc m) (concat (map (\<lambda>tld. batches_from combos tld 0) tlds))))
   \<and> (1 \<le> numberOfLetters \<and> generateCombos numberOfLetters = Some allCombos
        \<and> (\<forall>n batch. n < m \<longrightarrow> batch \<noteq> [] \<longrightarrow> answered (net n batch))
        \<and> (\<forall>batch. net m batch = Rejected)
        \<and> m < length (concat (map (\<lambda>tld. batches_from
                    (filterByPattern numberOfLetters allCombos patternArg) tld 0) tlds)) \<longrightarrow>
        (\<exists>st1. main numberOfLetters tlds patternArg net = Inl (FetchRejected, st1)
           \<and> requests st1
               = take (Suc m) (concat (map (\<lambda>tld. batches_from
                    (filterByPattern numberOfLetters allCombos patternArg) tld 0) tlds))))"
proof -
  have one: "checkDomainsBatch fetch domains = Inr []"
    if "fetch domains = Resolved response \<and> \<not> ok response \<and> body_text response = Some message"
    using that checkDomainsBatch_refused by blast
  have two: "\<exists>st1 run1. batch_body net combos tld i st run = Inr (st1, run1)
           \<and> requests st1 = requests st @ [batch_at combos tld i]
           \<and> available st1 = available st
           \<and> domainCounters st1 tld = domainCounters st tld + length (batch_at combos tld i)
           \<and> (files st1 = files st \<and> pendingDomains run1 = pendingDomains run
                \<or> files st1 = appendDomainsToFile (files st) tld (pendingDomains run)
                  \<and> pendingDomains run1 = [])"
    if "net (length (requests st)) (batch_at combos tld i) = Resolved response
        \<and> \<not> ok response \<and> body_text response = Some message"
  proof -
    from that have "checkDomainsBatch (net (length (requests st))) (batch_at combos tld i) = Inr []"
      using checkDomainsBatch_refused by blast
    then show ?thesis by (rule batch_body_refused)
  qed
  have next_batch: "batch_loop net combos tld i st run
          = batch_loop net combos tld (i + BATCH_SIZE) st1 run1"
    if "i < length combos \<and> batch_body net combos tld i st run = Inr (st1, run1)"
    using that by (simp add: batch_loop_step)
  have cover: "concat (batches_from combos tld 0) = map (\<lambda>combo. combo @ tld) combos"
    by (simp add: concat_batches_from)
  have three: "\<exists>st'. tld_loop net cs tlds s = Inr st'
           \<and> requests st' = requests s @ concat (map (\<lambda>tld. batches_from cs tld 0) tlds)
           \<and> length (requests st')
               = length (requests s) + length tlds * ((length cs + 49) div 50)"
    if "\<forall>n batch. batch \<noteq> [] \<longrightarrow> answered (net n batch)" for cs s
  proof -
    from tld_loop_completes [OF that] obtain st' where r: "tld_loop net cs tlds s = Inr st'"
      by blast
    from tld_loop_requests [OF r] tld_loop_requests_length [OF r] r show ?thesis by blast
  qed
  have three_main: "\<exists>st'. main numberOfLetters tlds patternArg net = Inr st'
           \<and> requests st'
               = concat (map (\<lambda>tld. batches_from
                    (filterByPattern numberOfLetters allCombos patternArg) tld 0) tlds)"
    if "1 \<le> numberOfLetters \<and> generateCombos numberOfLetters = Some allCombos
        \<and> (\<forall>n batch. batch \<noteq> [] \<longrightarrow> answered (net n batch))"
  proof -
    from that have m: "main numberOfLetters tlds patternArg net
        = tld_loop net (filterByPattern numberOfLetters allCombos patternArg) tlds init_state"
      by (simp add: main_is_tld_loop)
    from that three [of "filterByPattern numberOfLetters allCombos patternArg" init_state]
    show ?thesis unfolding m by (auto simp: init_state_def)
  qed
  have four: "checkDomainsBatch fetch domains = Inl FetchRejected" if "fetch domains = Rejected"
    using that by (rule checkDomainsBatch_rejected)
  have five: "batch_loop net combos tld i st run
          = Inl (FetchRejected, st\<lparr>requests := requests st @ [batch_at combos tld i]\<rparr>)"
    if "i < length combos \<and> net (length (requests st)) (batch_at combos tld i) = Rejected"
  proof -
    from that have "checkDomainsBatch (net (length (requests st))) (batch_at combos tld i)
        = Inl FetchRejected"
      using checkDomainsBatch_rejected by blast
    then have "batch_body net combos tld i st run
        = Inl (FetchRejected, st\<lparr>requests := requests st @ [batch_at combos tld i]\<rparr>)"
      by (simp add: batch_body_def Let_def)
    with that show ?thesis by (simp add: batch_loop_abort)
  qed
  have six: "\<exists>st1. tld_loop net cs tlds s = Inl (FetchRejected, st1)
           \<and> requests st1
               = requests s @ take (Suc m) (concat (map (\<lambda>tld. batches_from cs tld 0) tlds))"
    if "(\<forall>n batch. n < length (requests s) + m \<longrightarrow> batch \<noteq> [] \<longrightarrow> answered (net n batch))
        \<and> (\<forall>batch. net (length (requests s) + m) batch = Rejected)
        \<and> m < length (concat (map (\<lambda>tld. batches_from cs tld 0) tlds))" for cs s
  proof -
    from that have before: "\<forall>n batch. n < length (requests s) + m \<longrightarrow> batch \<noteq> []
                              \<longrightarrow> answered (net n batch)"
      and at: "\<forall>batch. net (length (requests s) + m) batch = Rejected"
      and lt: "m < length (concat (map (\<lambda>tld. batches_from cs tld 0) tlds))"
      by blast+
    have le: "length (requests s) \<le> length (requests s) + m" by simp
    from tld_loop_until_rejected [OF before at le, of cs tlds] lt show ?thesis by simp
  qed
  have six_main: "\<exists>st1. main numberOfLetters tlds patternArg net = Inl (FetchRejected, st1)
           \<and> requests st1
               = take (Suc m) (concat (map (\<lambda>tld. batches_from
                    (filterByPattern numberOfLetters allCombos patternArg) tld 0) tlds))"
    if "1 \<le> numberOfLetters \<and> generateCombos numberOfLetters = Some allCombos
        \<and> (\<forall>n batch. n < m \<longrightarrow> batch \<noteq> [] \<longrightarrow> answered (net n batch))
        \<and> (\<forall>batch. net m batch = Rejected)
        \<and> m < length (concat (map (\<lambda>tld. batches_from
                    (filterByPattern numberOfLetters allCombos patternArg) tld 0) tlds))"
  proof -
    from that have m: "main numberOfLetters tlds patternArg net
        = tld_loop net (filterByPattern numberOfLetters allCombos patternArg) tlds init_state"
      by (simp add: main_is_tld_loop)
    from that six [of init_state "filterByPattern numberOfLetters allCombos patternArg"]
    show ?thesis unfolding m by (auto simp: init_state_def)
  qed
  from one two next_batch cover three [of combos st] three_main four five six [of st combos] six_main
  show ?thesis by blast
qed

theorem refused_batch_is_skipped_witness:
  "all_refused 0 [''a.io''] = Resolved (Response False (Some ''UNABLE_TO_AUTHENTICATE'') None)
   \<and> checkDomainsBatch (all_refused 0) [''a.io''] = Inr []
   \<and> (\<exists>st'. tld_loop all_refused (replicate 120 ''ab'') [''.io'', ''.com''] init_state = Inr st'
         \<and> requests st' =
             [replicate 50 ''ab.io'', replicate 50 ''ab.io'', replicate 20 ''ab.io'',
              replicate 50 ''ab.com'', replicate 50 ''ab.com'', replicate 20 ''ab.com''])
   \<and> network_down 0 [''a.io''] = Rejected
   \<and> checkDomainsBatch (network_down 0) [''a.io''] = Inl FetchRejected
   \<and> (\<exists>st1. tld_loop (down_after 4) (replicate 120 ''ab'') [''.io'', ''.com''] init_state
               = Inl (FetchRejected, st1)
         \<and> requests st1 =
             [replicate 50 ''ab.io'', replicate 50 ''ab.io'', replicate 20 ''ab.io'',
              replicate 50 ''ab.com'', replicate 50 ''ab.com''])
   \<and> (\<exists>st1. main 1 [''.io'', ''.com''] ''none'' (down_after 1) = Inl (FetchRejected, st1)
         \<and> requests st1 =
             [map (\<lambda>word. word @ ''.io'') (lex_words 1),
              map (\<lambda>word. word @ ''.com'') (lex_words 1)])"
proof -
  note fact = refused_batch_is_skipped
  have r: "all_refused 0 [''a.io''] = Resolved (Response False (Some ''UNABLE_TO_AUTHENTICATE'') None)"
    by (simp add: all_refused_def)
  have "\<not> ok (Response False (Some ''UNABLE_TO_AUTHENTICATE'') None)
        \<and> body_text (Response False (Some ''UNABLE_TO_AUTHENTICATE'') None)
            = Some ''UNABLE_TO_AUTHENTICATE''"
    by simp
  with r fact [where fetch = "all_refused 0" and domains = "[''a.io'']"
                 and response = "Response False (Some ''UNABLE_TO_AUTHENTICATE'') None"
                 and message = "''UNABLE_TO_AUTHENTICATE''", THEN conjunct1]
  have one: "checkDomainsBatch (all_refused 0) [''a.io''] = Inr []" by blast
  have batches: "concat (map (\<lambda>tld. batches_from (replicate 120 ''ab'') tld 0) [''.io'', ''.com''])
      = [replicate 50 ''ab.io'', replicate 50 ''ab.io'', replicate 20 ''ab.io'',
         replicate 50 ''ab.com'', replicate 50 ''ab.com'', replicate 20 ''ab.com'']"
    by code_simp
  have answered: "\<forall>n batch. batch \<noteq> [] \<longrightarrow> answered (all_refused n batch)"
    by (simp add: answered_def all_refused_def)
  with fact [where net = all_refused and combos = "replicate 120 ''ab''"
               and tlds = "[''.io'', ''.com'']" and st = init_state,
             THEN conjunct2, THEN conjunct2, THEN conjunct2, THEN conjunct2, THEN conjunct1]
  obtain st' where "tld_loop all_refused (replicate 120 ''ab'') [''.io'', ''.com''] init_state = Inr st'"
    "requests st' = requests init_state
        @ concat (map (\<lambda>tld. batches_from (replicate 120 ''ab'') tld 0) [''.io'', ''.com''])"
    by blast
  then have three: "\<exists>st'. tld_loop all_refused (replicate 120 ''ab'') [''.io'', ''.com''] init_state = Inr st'
         \<and> requests st' =
             [replicate 50 ''ab.io'', replicate 50 ''ab.io'', replicate 20 ''ab.io'',
              replicate 50 ''ab.com'', replicate 50 ''ab.com'', replicate 20 ''ab.com'']"
    unfolding batches by (simp add: init_state_def)
  have d: "network_down 0 [''a.io''] = Rejected" by (simp add: network_down_def)
  with fact [where fetch = "network_down 0" and domains = "[''a.io'']",
             THEN conjunct2, THEN conjunct2, THEN conjunct2, THEN conjunct2, THEN conjunct2, THEN conjunct2, THEN conjunct1]
  have four: "checkDomainsBatch (network_down 0) [''a.io''] = Inl FetchRejected" by blast
  have before4: "\<forall>n batch. n < length (requests init_state) + 4 \<longrightarrow> batch \<noteq> []
                   \<longrightarrow> answered (down_after 4 n batch)"
    by (simp add: down_after_def all_taken_def answered_def init_state_def)
  have at4: "\<forall>batch. down_after 4 (length (requests init_state) + 4) batch = Rejected"
    by (simp add: down_after_def init_state_def)
  have lt4: "4 < length (concat (map (\<lambda>tld. batches_from (replicate 120 ''ab'') tld 0)
                                    [''.io'', ''.com'']))"
    unfolding batches by simp
  from fact [where net = "down_after 4" and combos = "replicate 120 ''ab''"
               and tlds = "[''.io'', ''.com'']" and st = init_state and m = 4,
             THEN conjunct2, THEN conjunct2, THEN conjunct2, THEN conjunct2, THEN conjunct2, THEN conjunct2, THEN conjunct2, THEN conjunct2, THEN conjunct1]
    before4 at4 lt4
  obtain st1 where "tld_loop (down_after 4) (replicate 120 ''ab'') [''.io'', ''.com''] init_state
               = Inl (FetchRejected, st1)"
    "requests st1 = requests init_state
        @ take (Suc 4) (concat (map (\<lambda>tld. batches_from (replicate 120 ''ab'') tld 0)
                                   [''.io'', ''.com'']))"
    by blast
  then have six: "\<exists>st1. tld_loop (down_after 4) (replicate 120 ''ab'') [''.io'', ''.com''] init_state
               = Inl (FetchRejected, st1)
         \<and> requests st1 =
             [replicate 50 ''ab.io'', replicate 50 ''ab.io'', replicate 20 ''ab.io'',
              replicate 50 ''ab.com'', replicate 50 ''ab.com'']"
    unfolding batches by (simp add: init_state_def)
  have g: "(1::nat) \<le> 1 \<and> generateCombos 1 = Some (lex_words 1)"
    by (simp add: generateCombos_eq)
  have batches1: "concat (map (\<lambda>tld. batches_from (filterByPattern 1 (lex_words 1) ''none'') tld 0)
                            [''.io'', ''.com''])
      = [map (\<lambda>word. word @ ''.io'') (lex_words 1), map (\<lambda>word. word @ ''.com'') (lex_words 1)]"
    by code_simp
  have before1: "\<forall>n batch. n < 1 \<longrightarrow> batch \<noteq> [] \<longrightarrow> answered (down_after 1 n batch)"
    by (simp add: down_after_def all_taken_def answered_def)
  have at1: "\<forall>batch. down_after 1 1 batch = Rejected"
    by (simp add: down_after_def)
  have lt1: "1 < length (concat (map (\<lambda>tld. batches_from (filterByPattern 1 (lex_words 1) ''none'')
                                             tld 0) [''.io'', ''.com'']))"
    unfolding batches1 by simp
  from fact [where net = "down_after 1" and numberOfLetters = 1 and allCombos = "lex_words 1"
               and patternArg = "''none''" and tlds = "[''.io'', ''.com'']" and m = 1,
             THEN conjunct2, THEN conjunct2, THEN conjunct2, THEN conjunct2, THEN conjunct2, THEN conjunct2, THEN conjunct2, THEN conjunct2, THEN conjunct2]
    g before1 at1 lt1
  obtain st1 where "main 1 [''.io'', ''.com''] ''none'' (down_after 1) = Inl (FetchRejected, st1)"
    "requests st1 = take (Suc 1)
        (concat (map (\<lambda>tld. batches_from (filterByPattern 1 (lex_words 1) ''none'') tld 0)
                   [''.io'', ''.com'']))"
    by blast
  then have seven: "\<exists>st1. main 1 [''.io'', ''.com''] ''none'' (down_after 1) = Inl (FetchRejected, st1)
         \<and> requests st1 =
             [map (\<lambda>word. word @ ''.io'') (lex_words 1),
              map (\<lambda>word. word @ ''.com'') (lex_words 1)]"
    unfolding batches1 by simp
  from r one three d four six seven show ?thesis by blast
qed

section \<open>Facts about the saves of a run\<close>

lemma save_points_1200: "save_points 1200 0 0 0 = [500, 1000, 1200]"
  by code_simp

lemma appendDomainsToFile_changes:
  "domains \<noteq> [] \<Longrightarrow> appendDomainsToFile fs tld domains \<noteq> fs"
  by (simp add: appendDomainsToFile_def Let_def fun_upd_idem_iff)

lemma batch_body_save:
  assumes body: "batch_body net combos tld i st run = Inr (st1, run1)"
    and res: "checkDomainsBatch (net (length (requests st))) (batch_at combos tld i) = Inr results"
  shows "if (domainCounters st1 tld - lastSavedAt run \<ge> SAVE_INTERVAL
               \<or> domainCounters st1 tld = length combos)
            \<and> pendingDomains run @ map domain (filter avail results) \<noteq> []
         then console st1 = console st @ map Available (map domain (filter avail results)) @
                [Saved (length (pendingDomains run @ map domain (filter avail results))) tld
                   (domainCounters st1 tld),
                 Processed (domainCounters st1 tld) (length combos) tld]
              \<and> files st1 = appendDomainsToFile (files st) tld
                              (pendingDomains run @ map domain (filter avail results))
              \<and> files st1 \<noteq> files st
              \<and> run1 = \<lparr>pendingDomains = [], lastSavedAt = domainCounters st1 tld\<rparr>
         else console st1 = console st @ map Available (map domain (filter avail results)) @
                [Processed (domainCounters st1 tld) (length combos) tld]
              \<and> files st1 = files st
              \<and> run1 = run\<lparr>pendingDomains := pendingDomains run @ map domain (filter avail results)\<rparr>"
proof -
  from body obtain results' where
    r': "checkDomainsBatch (net (length (requests st))) (batch_at combos tld i) = Inr results'"
    and split: "if (domainCounters st1 tld - lastSavedAt run \<ge> SAVE_INTERVAL
           \<or> domainCounters st1 tld = length combos)
        \<and> pendingDomains run @ map domain (filter avail results') \<noteq> []
     then files st1 = appendDomainsToFile (files st) tld
                        (pendingDomains run @ map domain (filter avail results'))
          \<and> console st1 = console st @ map Available (map domain (filter avail results')) @
                [Saved (length (pendingDomains run @ map domain (filter avail results'))) tld
                   (domainCounters st1 tld),
                 Processed (domainCounters st1 tld) (length combos) tld]
          \<and> run1 = \<lparr>pendingDomains = [], lastSavedAt = domainCounters st1 tld\<rparr>
     else files st1 = files st
          \<and> console st1 = console st @ map Available (map domain (filter avail results')) @
                [Processed (domainCounters st1 tld) (length combos) tld]
          \<and> run1 = run\<lparr>pendingDomains := pendingDomains run @ map domain (filter avail results')\<rparr>"
    by (rule batch_body_InrE)
  from r' res have same: "results' = results" by simp
  show ?thesis
  proof (cases "(domainCounters st1 tld - lastSavedAt run \<ge> SAVE_INTERVAL
               \<or> domainCounters st1 tld = length combos)
            \<and> pendingDomains run @ map domain (filter avail results) \<noteq> []")
    case True
    then have "pendingDomains run @ map domain (filter avail results) \<noteq> []" by blast
    then have "appendDomainsToFile (files st) tld
                 (pendingDomains run @ map domain (filter avail results)) \<noteq> files st"
      by (rule appendDomainsToFile_changes)
    with True split show ?thesis unfolding same by simp
  next
    case False
    with split show ?thesis unfolding same by auto
  qed
qed

lemma save_points_done: "\<not> i < len \<Longrightarrow> save_points len i checked lastSaved = []"
  by (subst save_points.simps) simp

lemma batch_loop_saves:
  assumes found: "\<forall>n batch. batch \<noteq> [] \<longrightarrow>
             (\<exists>results. checkDomainsBatch (net n) batch = Inr results \<and> filter avail results \<noteq> [])"
    and loop: "batch_loop net combos tld i st run = Inr (st', run')"
  shows "\<exists>new. console st' = console st @ new
           \<and> saved_counts new
               = save_points (length combos) i (domainCounters st tld) (lastSavedAt run)"
  using loop
proof (induction rule: batch_loop_Inr_induct)
  case (finished i st run)
  then show ?case by (simp add: save_points_done)
next
  case (iteration i st run st1 run1 st' run')
  let ?cc = "domainCounters st tld + min BATCH_SIZE (length combos - i)"
  have cc: "domainCounters st1 tld = ?cc"
    using batch_body_counter [OF iteration.hyps(2)] by simp
  have "length (batch_at combos tld i) \<noteq> 0"
    unfolding length_batch_at using iteration.hyps(1) by (simp add: BATCH_SIZE_def)
  then have "batch_at combos tld i \<noteq> []" by simp
  with found obtain results where
    res: "checkDomainsBatch (net (length (requests st))) (batch_at combos tld i) = Inr results"
    and some: "filter avail results \<noteq> []"
    by blast
  from some have pending: "pendingDomains run @ map domain (filter avail results) \<noteq> []" by simp
  note body = batch_body_save [OF iteration.hyps(2) res]
  from iteration.IH obtain new2 where new2: "console st' = console st1 @ new2"
    "saved_counts new2
       = save_points (length combos) (i + BATCH_SIZE) (domainCounters st1 tld) (lastSavedAt run1)"
    by blast
  let ?found = "map Available (map domain (filter avail results))"
  show ?case
  proof (cases "?cc - lastSavedAt run \<ge> SAVE_INTERVAL \<or> ?cc = length combos")
    case True
    let ?lines = "?found @
                [Saved (length (pendingDomains run @ map domain (filter avail results))) tld ?cc,
                 Processed ?cc (length combos) tld]"
    from True body pending cc have con: "console st1 = console st @ ?lines"
      and last: "lastSavedAt run1 = ?cc"
      by auto
    have "save_points (length combos) i (domainCounters st tld) (lastSavedAt run)
        = ?cc # save_points (length combos) (i + BATCH_SIZE) ?cc ?cc"
      using True iteration.hyps(1) by (subst save_points.simps) simp
    then have "saved_counts (?lines @ new2)
        = save_points (length combos) i (domainCounters st tld) (lastSavedAt run)"
      using new2(2) cc last by simp
    moreover have "console st' = console st @ (?lines @ new2)"
      using new2(1) con by simp
    ultimately show ?thesis by blast
  next
    case False
    let ?lines = "?found @ [Processed ?cc (length combos) tld]"
    from False body cc have con: "console st1 = console st @ ?lines"
      and last: "lastSavedAt run1 = lastSavedAt run"
      by auto
    have "save_points (length combos) i (domainCounters st tld) (lastSavedAt run)
        = save_points (length combos) (i + BATCH_SIZE) ?cc (lastSavedAt run)"
      using False iteration.hyps(1) by (subst save_points.simps) simp
    then have "saved_counts (?lines @ new2)
        = save_points (length combos) i (domainCounters st tld) (lastSavedAt run)"
      using new2(2) cc last by simp
    moreover have "console st' = console st @ (?lines @ new2)"
      using new2(1) con by simp
    ultimately show ?thesis by blast
  qed
qed

lemma final_saves_append [simp]:
  "final_saves (xs @ ys) = final_saves xs @ final_saves ys"
  by (induction xs rule: final_saves.induct) auto

lemma final_saves_Available [simp]:
  "final_saves (map Available names) = []"
  "final_saves (map (Available \<circ> f) xs) = []"
  by (induction names, auto) (induction xs, auto)

lemma cadence_Available:
  "cadence len lastSaved pending (map Available names @ ls)
   = cadence len lastSaved (pending + length names) ls"
  by (induction names arbitrary: pending) auto

lemma batch_body_lines:
  assumes "batch_body net combos tld i st run = Inr (st1, run1)"
  obtains found where
    "pendingDomains run1
       = (if (domainCounters st1 tld - lastSavedAt run \<ge> SAVE_INTERVAL
                \<or> domainCounters st1 tld = length combos)
             \<and> pendingDomains run @ found \<noteq> []
          then [] else pendingDomains run @ found)"
    "lastSavedAt run1
       = (if (domainCounters st1 tld - lastSavedAt run \<ge> SAVE_INTERVAL
                \<or> domainCounters st1 tld = length combos)
             \<and> pendingDomains run @ found \<noteq> []
          then domainCounters st1 tld else lastSavedAt run)"
    "console st1 = console st @ map Available found @
       (if (domainCounters st1 tld - lastSavedAt run \<ge> SAVE_INTERVAL
              \<or> domainCounters st1 tld = length combos)
           \<and> pendingDomains run @ found \<noteq> []
        then [Saved (length (pendingDomains run @ found)) tld (domainCounters st1 tld),
              Processed (domainCounters st1 tld) (length combos) tld]
        else [Processed (domainCounters st1 tld) (length combos) tld])"
proof -
  from assms obtain results where
    split: "if (domainCounters st1 tld - lastSavedAt run \<ge> SAVE_INTERVAL
           \<or> domainCounters st1 tld = length combos)
        \<and> pendingDomains run @ map domain (filter avail results) \<noteq> []
     then files st1 = appendDomainsToFile (files st) tld
                        (pendingDomains run @ map domain (filter avail results))
          \<and> console st1 = console st @ map Available (map domain (filter avail results)) @
                [Saved (length (pendingDomains run @ map domain (filter avail results))) tld
                   (domainCounters st1 tld),
                 Processed (domainCounters st1 tld) (length combos) tld]
          \<and> run1 = \<lparr>pendingDomains = [], lastSavedAt = domainCounters st1 tld\<rparr>
     else files st1 = files st
          \<and> console st1 = console st @ map Available (map domain (filter avail results)) @
                [Processed (domainCounters st1 tld) (length combos) tld]
          \<and> run1 = run\<lparr>pendingDomains := pendingDomains run @ map domain (filter avail results)\<rparr>"
    by (rule batch_body_InrE)
  show thesis
  proof (rule that [of "map domain (filter avail results)"])
    show "pendingDomains run1
       = (if (domainCounters st1 tld - lastSavedAt run \<ge> SAVE_INTERVAL
                \<or> domainCounters st1 tld = length combos)
             \<and> pendingDomains run @ map domain (filter avail results) \<noteq> []
          then [] else pendingDomains run @ map domain (filter avail results))"
      using split by (auto split: if_splits)
    show "lastSavedAt run1
       = (if (domainCounters st1 tld - lastSavedAt run \<ge> SAVE_INTERVAL
                \<or> domainCounters st1 tld = length combos)
             \<and> pendingDomains run @ map domain (filter avail results) \<noteq> []
          then domainCounters st1 tld else lastSavedAt run)"
      using split by (auto split: if_splits)
    show "console st1 = console st @ map Available (map domain (filter avail results)) @
       (if (domainCounters st1 tld - lastSavedAt run \<ge> SAVE_INTERVAL
              \<or> domainCounters st1 tld = length combos)
           \<and> pendingDomains run @ map domain (filter avail results) \<noteq> []
        then [Saved (length (pendingDomains run @ map domain (filter avail results))) tld
                (domainCounters st1 tld),
              Processed (domainCounters st1 tld) (length combos) tld]
        else [Processed (domainCounters st1 tld) (length combos) tld])"
      using split by (auto split: if_splits)
  qed
qed

lemma batch_loop_cadence:
  assumes "batch_loop net combos tld i st run = Inr (st', run')"
  shows "\<exists>new. console st' = console st @ new
           \<and> final_saves new = []
           \<and> (\<forall>rest. cadence (length combos) (lastSavedAt run) (length (pendingDomains run))
                         (new @ rest)
                     = cadence (length combos) (lastSavedAt run') (length (pendingDomains run'))
                         rest)"
  using assms
proof (induction rule: batch_loop_Inr_induct)
  case (finished i st run)
  then show ?case by simp
next
  case (iteration i st run st1 run1 st' run')
  from iteration.hyps(2) obtain found where
    pending1: "pendingDomains run1
       = (if (domainCounters st1 tld - lastSavedAt run \<ge> SAVE_INTERVAL
                \<or> domainCounters st1 tld = length combos)
             \<and> pendingDomains run @ found \<noteq> []
          then [] else pendingDomains run @ found)"
    and last1: "lastSavedAt run1
       = (if (domainCounters st1 tld - lastSavedAt run \<ge> SAVE_INTERVAL
                \<or> domainCounters st1 tld = length combos)
             \<and> pendingDomains run @ found \<noteq> []
          then domainCounters st1 tld else lastSavedAt run)"
    and console1: "console st1 = console st @ map Available found @
       (if (domainCounters st1 tld - lastSavedAt run \<ge> SAVE_INTERVAL
              \<or> domainCounters st1 tld = length combos)
           \<and> pendingDomains run @ found \<noteq> []
        then [Saved (length (pendingDomains run @ found)) tld (domainCounters st1 tld),
              Processed (domainCounters st1 tld) (length combos) tld]
        else [Processed (domainCounters st1 tld) (length combos) tld])"
    by (rule batch_body_lines)
  from iteration.IH obtain new2 where
    new2: "console st' = console st1 @ new2" "final_saves new2 = []"
    and rest2: "\<And>rest. cadence (length combos) (lastSavedAt run1) (length (pendingDomains run1))
                         (new2 @ rest)
                     = cadence (length combos) (lastSavedAt run') (length (pendingDomains run'))
                         rest"
    by blast
  let ?cc = "domainCounters st1 tld"
  define save where "save \<longleftrightarrow>
    (?cc - lastSavedAt run \<ge> SAVE_INTERVAL \<or> ?cc = length combos)
    \<and> pendingDomains run @ found \<noteq> []"
  let ?lines = "if save
                then [Saved (length (pendingDomains run @ found)) tld ?cc,
                      Processed ?cc (length combos) tld]
                else [Processed ?cc (length combos) tld]"
  let ?new = "map Available found @ ?lines @ new2"
  have p1: "pendingDomains run1 = (if save then [] else pendingDomains run @ found)"
    unfolding save_def by (rule pending1)
  have l1: "lastSavedAt run1 = (if save then ?cc else lastSavedAt run)"
    unfolding save_def by (rule last1)
  have "console st1 = console st @ map Available found @ ?lines"
    unfolding save_def by (rule console1)
  then have "console st' = console st @ ?new"
    using new2(1) by simp
  moreover have "final_saves ?new = []"
    using new2(2) by simp
  moreover have "cadence (length combos) (lastSavedAt run) (length (pendingDomains run))
                         (?new @ rest)
                     = cadence (length combos) (lastSavedAt run') (length (pendingDomains run'))
                         rest" for rest
  proof (cases save)
    case True
    then have cond: "?cc - lastSavedAt run \<ge> SAVE_INTERVAL \<or> ?cc = length combos"
      and some: "0 < length (pendingDomains run) + length found"
      by (auto simp: save_def)
    from True have "cadence (length combos) (lastSavedAt run) (length (pendingDomains run))
                 (?new @ rest)
        = cadence (length combos) (lastSavedAt run) (length (pendingDomains run) + length found)
            (Saved (length (pendingDomains run @ found)) tld ?cc
               # Processed ?cc (length combos) tld # (new2 @ rest))"
      by (simp add: cadence_Available)
    also have "\<dots> = cadence (length combos) ?cc 0 (new2 @ rest)"
      using cond some by simp
    also have "\<dots> = cadence (length combos) (lastSavedAt run') (length (pendingDomains run')) rest"
      using rest2 [of rest] True p1 l1 by simp
    finally show ?thesis .
  next
    case False
    then have cond: "\<not> ((?cc - lastSavedAt run \<ge> SAVE_INTERVAL \<or> ?cc = length combos)
                       \<and> 0 < length (pendingDomains run) + length found)"
      by (auto simp: save_def)
    from False have "cadence (length combos) (lastSavedAt run) (length (pendingDomains run))
                 (?new @ rest)
        = cadence (length combos) (lastSavedAt run) (length (pendingDomains run) + length found)
            (Processed ?cc (length combos) tld # (new2 @ rest))"
      by (simp add: cadence_Available)
    also have "\<dots> = cadence (length combos) (lastSavedAt run)
                       (length (pendingDomains run) + length found) (new2 @ rest)"
      using cond by simp
    also have "\<dots> = cadence (length combos) (lastSavedAt run') (length (pendingDomains run')) rest"
      using rest2 [of rest] False p1 l1 by simp
    finally show ?thesis .
  qed
  ultimately show ?case by blast
qed

lemma batch_loop_pending_empty:
  assumes "batch_loop net combos tld i st run = Inr (st', run')"
  shows "i < length combos \<longrightarrow> domainCounters st tld + (length combos - i) = length combos
         \<longrightarrow> pendingDomains run' = []"
  using assms
proof (induction rule: batch_loop_Inr_induct)
  case (finished i st run)
  then show ?case by simp
next
  case (iteration i st run st1 run1 st' run')
  show ?case
  proof (intro impI)
    assume start: "domainCounters st tld + (length combos - i) = length combos"
    have c1: "domainCounters st1 tld
        = domainCounters st tld + min BATCH_SIZE (length combos - i)"
      using batch_body_counter [OF iteration.hyps(2)] by simp
    show "pendingDomains run' = []"
    proof (cases "i + BATCH_SIZE < length combos")
      case True
      then have "domainCounters st1 tld + (length combos - (i + BATCH_SIZE)) = length combos"
        using start c1 by (simp add: BATCH_SIZE_def)
      with True iteration.IH show ?thesis by blast
    next
      case False
      then have same: "st' = st1" "run' = run1"
        using iteration.hyps(3) by (simp_all add: batch_loop_done)
      from False start c1 iteration.hyps(1) have total: "domainCounters st1 tld = length combos"
        by (simp add: BATCH_SIZE_def)
      from iteration.hyps(2) obtain found where
        "pendingDomains run1
           = (if (domainCounters st1 tld - lastSavedAt run \<ge> SAVE_INTERVAL
                    \<or> domainCounters st1 tld = length combos)
                 \<and> pendingDomains run @ found \<noteq> []
              then [] else pendingDomains run @ found)"
        by (rule batch_body_lines)
      with total same show ?thesis by (auto split: if_splits)
    qed
  qed
qed

lemma check_tld_saves:
  assumes "check_tld net combos tld st = Inr st'"
  shows "\<exists>st1 run1 new.
           batch_loop net combos tld 0 st \<lparr>pendingDomains = [], lastSavedAt = 0\<rparr> = Inr (st1, run1)
           \<and> console st' = console st @ new
           \<and> cadence (length combos) 0 0 new
           \<and> final_saves new
               = (if pendingDomains run1 = [] then [] else [length (pendingDomains run1)])
           \<and> files st'
               = (if pendingDomains run1 = [] then files st1
                  else appendDomainsToFile (files st1) tld (pendingDomains run1))
           \<and> (domainCounters st tld = 0 \<longrightarrow> pendingDomains run1 = [])"
proof -
  let ?run0 = "\<lparr>pendingDomains = [], lastSavedAt = 0\<rparr>"
  from assms obtain st1 run1 where
    loop: "batch_loop net combos tld 0 st ?run0 = Inr (st1, run1)"
    and con: "console st' = console st1 @
       (if pendingDomains run1 = [] then [] else [SavedFinal (length (pendingDomains run1)) tld])"
    by (rule check_tld_InrE)
  have files: "files st'
               = (if pendingDomains run1 = [] then files st1
                  else appendDomainsToFile (files st1) tld (pendingDomains run1))"
    using assms loop by (auto simp: check_tld_def split: if_splits)
  from batch_loop_cadence [OF loop] obtain new1 where
    new1: "console st1 = console st @ new1" "final_saves new1 = []"
    and through: "\<And>rest. cadence (length combos) 0 0 (new1 @ rest)
                     = cadence (length combos) (lastSavedAt run1) (length (pendingDomains run1)) rest"
    by auto
  let ?tail = "if pendingDomains run1 = [] then []
               else [SavedFinal (length (pendingDomains run1)) tld]"
  have c: "console st' = console st @ (new1 @ ?tail)"
    using con new1(1) by simp
  have d: "cadence (length combos) 0 0 (new1 @ ?tail)"
    unfolding through by simp
  have e: "final_saves (new1 @ ?tail)
      = (if pendingDomains run1 = [] then [] else [length (pendingDomains run1)])"
    using new1(2) by simp
  have z: "domainCounters st tld = 0 \<longrightarrow> pendingDomains run1 = []"
  proof
    assume zero: "domainCounters st tld = 0"
    show "pendingDomains run1 = []"
    proof (cases "0 < length combos")
      case True
      with batch_loop_pending_empty [OF loop] zero show ?thesis by simp
    next
      case False
      with loop have "run1 = ?run0" by (auto simp: batch_loop_done)
      then show ?thesis by simp
    qed
  qed
  show ?thesis
    by (rule exI [of _ st1], rule exI [of _ run1], rule exI [of _ "new1 @ ?tail"])
       (intro conjI loop c d e files z)
qed

lemma tld_loop_no_final_save:
  "tld_loop net combos tlds st = Inr st' \<Longrightarrow> distinct tlds \<Longrightarrow>
   \<forall>tld \<in> set tlds. domainCounters st tld = 0 \<Longrightarrow>
   \<exists>new. console st' = console st @ new \<and> final_saves new = []"
proof (induction tlds arbitrary: st)
  case Nil
  then show ?case by simp
next
  case (Cons tld tlds)
  from Cons.prems(1) obtain st1 where
    first: "check_tld net combos tld st = Inr st1" and rest: "tld_loop net combos tlds st1 = Inr st'"
    by (auto split: sum.splits)
  from check_tld_saves [OF first] Cons.prems(3) obtain new1 where
    new1: "console st1 = console st @ new1" "final_saves new1 = []"
    by auto
  have c1: "domainCounters st1 = (domainCounters st)(tld := domainCounters st tld + length combos)"
    using check_tld_trace [OF first] by blast
  have "\<forall>t \<in> set tlds. domainCounters st1 t = 0"
    using Cons.prems(2,3) unfolding c1 by auto
  with Cons.IH [OF rest] Cons.prems(2) obtain new2 where
    new2: "console st' = console st1 @ new2" "final_saves new2 = []"
    by auto
  have "console st' = console st @ (new1 @ new2)" using new1(1) new2(1) by simp
  moreover have "final_saves (new1 @ new2) = []" using new1(2) new2(2) by simp
  ultimately show ?case by blast
qed

lemma final_save_on_repeated_tld:
  "console (final_state (tld_loop all_available [''ab''] [''.io'', ''.io''] init_state))
     = [Available ''ab.io'', Saved 1 ''.io'' 1, Processed 1 1 ''.io'',
        Available ''ab.io'', Processed 2 1 ''.io'', SavedFinal 1 ''.io'']"
  by code_simp

section \<open>Claims about the save cadence\<close>

text \<open>
  Claim C5, as the specification states it, has a save after a batch exactly when 500
  more candidates were checked since the last save or the checked count has reached the
  total. The source saves only when, in addition, names are pending. With one letter, no
  filter and every name taken, the only batch takes the checked count to the total, 26,
  and nothing is written: the console shows the progress line alone.
\<close>

theorem no_save_without_pending_names_counterexample:
  "domainCounters (final_state (main 1 [''.io''] ''none'' all_taken)) ''.io'' = 26
   \<and> map_option (\<lambda>allCombos. length (filterByPattern 1 allCombos ''none'')) (generateCombos 1)
       = Some 26
   \<and> console (final_state (main 1 [''.io''] ''none'' all_taken)) = [Processed 26 26 ''.io'']
   \<and> files (final_state (main 1 [''.io''] ''none'' all_taken)) (textFilePath ''.io'') = []"
proof -
  have "domainCounters (final_state (main 1 [''.io''] ''none'' all_taken)) ''.io'' = 26"
    by code_simp
  moreover have "map_option (\<lambda>allCombos. length (filterByPattern 1 allCombos ''none''))
                   (generateCombos 1) = Some 26"
    by code_simp
  moreover have "console (final_state (main 1 [''.io''] ''none'' all_taken))
                   = [Processed 26 26 ''.io'']"
    by code_simp
  moreover have "files (final_state (main 1 [''.io''] ''none'' all_taken)) (textFilePath ''.io'') = []"
    by code_simp
  ultimately show ?thesis by blast
qed

text \<open>
  Claim C5, amended. After an answered batch, inside the batch loop, names are saved
  (they are appended to the file of the TLD and a save line is printed) if and only if
  the checked count is at least 500 above the count at the last save of this run, or
  equals the total, and at least one name is pending; a save empties the pending names
  and records the checked count as the count at the last save, and without a save both
  stay, the names found by the batch being added to the pending ones. The lines that the
  run of a TLD prints follow this cadence from the first batch to the last. After the
  last batch the names are saved once more if and only if names are still pending; that
  does not happen in a run that starts with the counter of its TLD at zero, as every run
  of the program over a TLD list without repetitions does. In particular, with 1200
  combinations, a counter that starts at zero and an available name in every batch, the
  run of a TLD completes and saves after the checked counts 500, 1000 and 1200 and not
  after the loop.
\<close>

theorem save_after_batch_iff:
  "(batch_body net combos tld i st run = Inr (st1, run1)
      \<and> checkDomainsBatch (net (length (requests st))) (batch_at combos tld i) = Inr results \<longrightarrow>
      (\<exists>new. console st1 = console st @ new
         \<and> saved_counts new =
             (if (domainCounters st1 tld - lastSavedAt run \<ge> SAVE_INTERVAL
                    \<or> domainCounters st1 tld = length combos)
                 \<and> pendingDomains run @ map domain (filter avail results) \<noteq> []
              then [domainCounters st1 tld] else []))
      \<and> (files st1 \<noteq> files st \<longleftrightarrow>
            (domainCounters st1 tld - lastSavedAt run \<ge> SAVE_INTERVAL
               \<or> domainCounters st1 tld = length combos)
            \<and> pendingDomains run @ map domain (filter avail results) \<noteq> [])
      \<and> (if (domainCounters st1 tld - lastSavedAt run \<ge> SAVE_INTERVAL
                \<or> domainCounters st1 tld = length combos)
             \<and> pendingDomains run @ map domain (filter avail results) \<noteq> []
          then files st1 = appendDomainsToFile (files st) tld
                             (pendingDomains run @ map domain (filter avail results))
               \<and> pendingDomains run1 = [] \<and> lastSavedAt run1 = domainCounters st1 tld
          else pendingDomains run1 = pendingDomains run @ map domain (filter avail results)
               \<and> lastSavedAt run1 = lastSavedAt run))
   \<and> (check_tld net combos tld st = Inr st' \<longrightarrow>
        (\<exists>st2 run2 new.
           batch_loop net combos tld 0 st \<lparr>pendingDomains = [], lastSavedAt = 0\<rparr> = Inr (st2, run2)
           \<and> console st' = console st @ new
           \<and> cadence (length combos) 0 0 new
           \<and> final_saves new
               = (if pendingDomains run2 = [] then [] else [length (pendingDomains run2)])
           \<and> files st'
               = (if pendingDomains run2 = [] then files st2
                  else appendDomainsToFile (files st2) tld (pendingDomains run2))
           \<and> (domainCounters st tld = 0 \<longrightarrow> pendingDomains run2 = [])))
   \<and> (distinct tlds \<and> generateCombos numberOfLetters = Some allCombos
        \<and> main numberOfLetters tlds patternArg net = Inr final \<longrightarrow>
        final_saves (console final) = [])
   \<and> (length combos = 1200 \<and> domainCounters st tld = 0
        \<and> (\<forall>n batch. batch \<noteq> [] \<longrightarrow>
              (\<exists>results. checkDomainsBatch (net n) batch = Inr results
                 \<and> filter avail results \<noteq> [])) \<longrightarrow>
        (\<exists>st' new. check_tld net combos tld st = Inr st'
           \<and> console st' = console st @ new
           \<and> saved_counts new = [500, 1000, 1200]
           \<and> final_saves new = []))"
proof -
  have step: "(\<exists>new. console st1 = console st @ new
         \<and> saved_counts new =
             (if (domainCounters st1 tld - lastSavedAt run \<ge> SAVE_INTERVAL
                    \<or> domainCounters st1 tld = length combos)
                 \<and> pendingDomains run @ map domain (filter avail results) \<noteq> []
              then [domainCounters st1 tld] else []))
      \<and> (files st1 \<noteq> files st \<longleftrightarrow>
            (domainCounters st1 tld - lastSavedAt run \<ge> SAVE_INTERVAL
               \<or> domainCounters st1 tld = length combos)
            \<and> pendingDomains run @ map domain (filter avail results) \<noteq> [])
      \<and> (if (domainCounters st1 tld - lastSavedAt run \<ge> SAVE_INTERVAL
                \<or> domainCounters st1 tld = length combos)
             \<and> pendingDomains run @ map domain (filter avail results) \<noteq> []
          then files st1 = appendDomainsToFile (files st) tld
                             (pendingDomains run @ map domain (filter avail results))
               \<and> pendingDomains run1 = [] \<and> lastSavedAt run1 = domainCounters st1 tld
          else pendingDomains run1 = pendingDomains run @ map domain (filter avail results)
               \<and> lastSavedAt run1 = lastSavedAt run)"
    if "batch_body net combos tld i st run = Inr (st1, run1)
      \<and> checkDomainsBatch (net (length (requests st))) (batch_at combos tld i) = Inr results"
  proof -
    from that have body: "batch_body net combos tld i st run = Inr (st1, run1)"
      and res: "checkDomainsBatch (net (length (requests st))) (batch_at combos tld i) = Inr results"
      by blast+
    note save = batch_body_save [OF body res]
    show ?thesis
    proof (cases "(domainCounters st1 tld - lastSavedAt run \<ge> SAVE_INTERVAL
                \<or> domainCounters st1 tld = length combos)
             \<and> pendingDomains run @ map domain (filter avail results) \<noteq> []")
      case True
      with save show ?thesis by auto
    next
      case False
      with save show ?thesis by auto
    qed
  qed
  have whole_run: "\<exists>st2 run2 new.
           batch_loop net combos tld 0 st \<lparr>pendingDomains = [], lastSavedAt = 0\<rparr> = Inr (st2, run2)
           \<and> console st' = console st @ new
           \<and> cadence (length combos) 0 0 new
           \<and> final_saves new
               = (if pendingDomains run2 = [] then [] else [length (pendingDomains run2)])
           \<and> files st'
               = (if pendingDomains run2 = [] then files st2
                  else appendDomainsToFile (files st2) tld (pendingDomains run2))
           \<and> (domainCounters st tld = 0 \<longrightarrow> pendingDomains run2 = [])"
    if "check_tld net combos tld st = Inr st'"
    using that by (rule check_tld_saves)
  have program: "final_saves (console final) = []"
    if "distinct tlds \<and> generateCombos numberOfLetters = Some allCombos
        \<and> main numberOfLetters tlds patternArg net = Inr final"
  proof -
    from that have d: "distinct tlds"
      and loop: "tld_loop net (filterByPattern numberOfLetters allCombos patternArg) tlds
                   init_state = Inr final"
      by (auto simp: main_def split: if_splits)
    have zero: "\<forall>tld \<in> set tlds. domainCounters init_state tld = 0"
      by (simp add: init_state_def)
    from tld_loop_no_final_save [OF loop d zero] show ?thesis
      by (auto simp: init_state_def)
  qed
  have scenario: "\<exists>st' new. check_tld net combos tld st = Inr st'
           \<and> console st' = console st @ new
           \<and> saved_counts new = [500, 1000, 1200]
           \<and> final_saves new = []"
    if "length combos = 1200 \<and> domainCounters st tld = 0
        \<and> (\<forall>n batch. batch \<noteq> [] \<longrightarrow>
              (\<exists>results. checkDomainsBatch (net n) batch = Inr results
                 \<and> filter avail results \<noteq> []))"
  proof -
    from that have len: "length combos = 1200" and zero: "domainCounters st tld = 0"
      and found: "\<forall>n batch. batch \<noteq> [] \<longrightarrow>
              (\<exists>results. checkDomainsBatch (net n) batch = Inr results
                 \<and> filter avail results \<noteq> [])"
      by blast+
    from found have "\<forall>n batch. batch \<noteq> [] \<longrightarrow> answered (net n batch)"
      unfolding checkDomainsBatch_answered by blast
    then obtain st' where run: "check_tld net combos tld st = Inr st'"
      using check_tld_completes by blast
    from check_tld_saves [OF run] zero obtain st2 run2 new where
      loop: "batch_loop net combos tld 0 st \<lparr>pendingDomains = [], lastSavedAt = 0\<rparr> = Inr (st2, run2)"
      and con: "console st' = console st @ new"
      and none: "final_saves new = []"
      by auto
    from run loop have con2: "console st' = console st2 @
         (if pendingDomains run2 = [] then [] else [SavedFinal (length (pendingDomains run2)) tld])"
      by (auto simp: check_tld_def split: if_splits)
    from batch_loop_saves [OF found loop] obtain new2 where
      new2: "console st2 = console st @ new2" "saved_counts new2 = save_points 1200 0 0 0"
      using len zero by auto
    have "new = new2 @ (if pendingDomains run2 = [] then []
                        else [SavedFinal (length (pendingDomains run2)) tld])"
      using con con2 new2(1) by simp
    then have "saved_counts new = [500, 1000, 1200]"
      using new2(2) by (simp add: save_points_1200)
    with run con none show ?thesis by blast
  qed
  from step whole_run program scenario show ?thesis by blast
qed

theorem save_after_batch_iff_witness:
  "checkDomainsBatch (all_available 0) (batch_at [''ab''] ''.io'' 0) = Inr [CheckResult ''ab.io'' True]
   \<and> (\<exists>st1 run1 new.
         batch_body all_available [''ab''] ''.io'' 0 init_state \<lparr>pendingDomains = [], lastSavedAt = 0\<rparr>
           = Inr (st1, run1)
         \<and> domainCounters st1 ''.io'' = 1
         \<and> console st1 = new \<and> saved_counts new = [1]
         \<and> files st1 \<noteq> files init_state
         \<and> pendingDomains run1 = [] \<and> lastSavedAt run1 = 1)
   \<and> (\<exists>st'. check_tld all_available [''ab''] ''.io'' init_state = Inr st'
         \<and> cadence 1 0 0 (console st')
         \<and> final_saves (console st') = [])
   \<and> distinct [''.io'', ''.com'']
   \<and> (\<exists>final. main 1 [''.io'', ''.com''] ''none'' all_available = Inr final
         \<and> final_saves (console final) = [])
   \<and> length (replicate 1200 ''ab'') = 1200
   \<and> domainCounters init_state ''.io'' = 0
   \<and> (\<exists>st' new. check_tld all_available (replicate 1200 ''ab'') ''.io'' init_state = Inr st'
         \<and> console st' = new \<and> saved_counts new = [500, 1000, 1200]
         \<and> final_saves new = [])"
proof -
  note fact = save_after_batch_iff
  let ?run0 = "\<lparr>pendingDomains = [], lastSavedAt = 0\<rparr>"
  have res: "checkDomainsBatch (all_available (length (requests init_state)))
               (batch_at [''ab''] ''.io'' 0) = Inr [CheckResult ''ab.io'' True]"
    by code_simp
  then have res0: "checkDomainsBatch (all_available 0) (batch_at [''ab''] ''.io'' 0)
      = Inr [CheckResult ''ab.io'' True]"
    by (simp add: init_state_def)
  from res obtain st1 run1 where
    body: "batch_body all_available [''ab''] ''.io'' 0 init_state ?run0 = Inr (st1, run1)"
    using batch_body_Inr_iff by blast
  have c: "domainCounters st1 ''.io'' = 1"
    using batch_body_counter [OF body] by (simp add: init_state_def BATCH_SIZE_def)
  from fact [where net = all_available and combos = "[''ab'']" and tld = "''.io''" and i = 0
               and st = init_state and run = ?run0 and ?st1.0 = st1 and ?run1.0 = run1
               and results = "[CheckResult ''ab.io'' True]", THEN conjunct1] body res
  have part1: "\<exists>new. console st1 = new \<and> saved_counts new = [1]"
    and part2: "files st1 \<noteq> files init_state"
    and part3: "pendingDomains run1 = [] \<and> lastSavedAt run1 = 1"
    unfolding c by (auto simp: init_state_def SAVE_INTERVAL_def)
  have found: "\<forall>n batch. batch \<noteq> [] \<longrightarrow>
              (\<exists>results. checkDomainsBatch (all_available n) batch = Inr results
                 \<and> filter avail results \<noteq> [])"
    by (auto simp: checkDomainsBatch_def all_available_def filter_empty_conv neq_Nil_conv)
  then have "\<forall>n batch. batch \<noteq> [] \<longrightarrow> answered (all_available n batch)"
    unfolding checkDomainsBatch_answered by blast
  then obtain st' where run: "check_tld all_available [''ab''] ''.io'' init_state = Inr st'"
    using check_tld_completes by blast
  have zero: "domainCounters init_state ''.io'' = 0" by (simp add: init_state_def)
  from fact [where net = all_available and combos = "[''ab'']" and tld = "''.io''"
               and st = init_state and st' = st', THEN conjunct2, THEN conjunct1] run zero
  have part5: "cadence 1 0 0 (console st') \<and> final_saves (console st') = []"
    by (auto simp: init_state_def)
  have d: "distinct [''.io'', ''.com'']" by simp
  have g: "generateCombos 1 = Some (lex_words 1)" by (rule generateCombos_eq)
  have "isl (main 1 [''.io'', ''.com''] ''none'' all_available) = False" by code_simp
  then obtain final where m: "main 1 [''.io'', ''.com''] ''none'' all_available = Inr final"
    by (cases "main 1 [''.io'', ''.com''] ''none'' all_available") auto
  from fact [where net = all_available and tlds = "[''.io'', ''.com'']" and numberOfLetters = 1
               and allCombos = "lex_words 1" and patternArg = "''none''" and final = final,
             THEN conjunct2, THEN conjunct2, THEN conjunct1] d g m
  have part6: "final_saves (console final) = []" by blast
  have len: "length (replicate 1200 ''ab'') = 1200" by simp
  from fact [where net = all_available and combos = "replicate 1200 ''ab''" and tld = "''.io''"
               and st = init_state, THEN conjunct2, THEN conjunct2, THEN conjunct2]
    len zero found
  have part4: "\<exists>st' new. check_tld all_available (replicate 1200 ''ab'') ''.io'' init_state = Inr st'
         \<and> console st' = new \<and> saved_counts new = [500, 1000, 1200]
         \<and> final_saves new = []"
    by (auto simp: init_state_def)
  from res0 body c part1 part2 part3 run part5 d m part6 len zero part4 show ?thesis by blast
qed

end
